theory Spec2Isabelle
  imports Complex_Main "HOL-Library.Word"
begin

section \<open>Argument parsing\<close>

text \<open>
  The program is a single translation unit, \<^verbatim>\<open>main.cpp\<close>. Its integers are
  \<^verbatim>\<open>uint64_t\<close>, modelled as \<open>64 word\<close>; a C string is a \<open>string\<close> without
  its terminating NUL.
\<close>

type_synonym u64 = "64 word"
type_synonym byte = "8 word"

subsection \<open>\<^verbatim>\<open>std::from_chars\<close> for an unsigned 64-bit integer, base 10\<close>

text \<open>
  \<^verbatim>\<open>std::from_chars(first, last, value)\<close> belongs to the C++ standard library.
  For an unsigned type and base 10 it matches the longest prefix of decimal digits
  (no sign, no white space). With no digit it returns \<^verbatim>\<open>{first, invalid_argument}\<close>;
  when the digits denote a number that does not fit the type it returns the end of
  the digits and \<^verbatim>\<open>result_out_of_range\<close>; in both cases \<^verbatim>\<open>value\<close> keeps what it
  held. Otherwise \<^verbatim>\<open>value\<close> is the number and the pointer is the first character that
  is not a digit.
\<close>

datatype errc = errc_ok | invalid_argument | result_out_of_range

definition is_digit :: "char \<Rightarrow> bool" where
  "is_digit c = (c \<in> set ''0123456789'')"

definition digit_val :: "char \<Rightarrow> nat" where
  "digit_val c = of_char c - 48"

definition dec_value :: "string \<Rightarrow> nat" where
  "dec_value ds = foldl (\<lambda>a c. 10 * a + digit_val c) 0 ds"

definition from_chars :: "string \<Rightarrow> u64 \<Rightarrow> string \<times> errc \<times> u64" where
  "from_chars sv val =
     (let ds = takeWhile is_digit sv; rest = dropWhile is_digit sv
      in if ds = [] then (sv, invalid_argument, val)
         else if dec_value ds > 2 ^ 64 - 1 then (rest, result_out_of_range, val)
         else (rest, errc_ok, of_nat (dec_value ds)))"

subsection \<open>\<^verbatim>\<open>parse_size\<close>\<close>

text \<open>
  \<^verbatim>\<open>*first_non_number\<close>: the character the returned pointer designates, which is
  the terminating NUL when the whole argument was consumed.
\<close>

definition deref :: "string \<Rightarrow> char" where
  "deref p = (case p of [] \<Rightarrow> CHR 0x00 | c # _ \<Rightarrow> c)"

text \<open>
  The \<^verbatim>\<open>switch\<close> falls through from each unit to the next smaller one, so \<^verbatim>\<open>T\<close>
  multiplies four times, \<^verbatim>\<open>G\<close> three times, and so on; the multiplications are
  those of \<^verbatim>\<open>uint64_t\<close>.
\<close>

definition parse_size :: "string \<Rightarrow> u64 option" where
  "parse_size s =
     (case from_chars s 0 of (first_non_number, ec, sz) \<Rightarrow>
        if ec \<noteq> errc_ok then None
        else let c = deref first_non_number in
          if c = CHR ''T'' \<or> c = CHR ''t'' then Some ((((sz * 1024) * 1024) * 1024) * 1024)
          else if c = CHR ''G'' \<or> c = CHR ''g'' then Some (((sz * 1024) * 1024) * 1024)
          else if c = CHR ''M'' \<or> c = CHR ''m'' then Some ((sz * 1024) * 1024)
          else if c = CHR ''K'' \<or> c = CHR ''k'' then Some (sz * 1024)
          else if c = CHR 0x00 then Some sz
          else None)"

section \<open>The pseudo-random generator\<close>

text \<open>
  \<^verbatim>\<open>Prng\<close> is \<^verbatim>\<open>std::independent_bits_engine\<close> over \<^verbatim>\<open>std::mt19937_64\<close>, a type
  of the standard library. The program uses two of its operations: seeding (the
  constructor \<^verbatim>\<open>Prng prng{seed}\<close> and \<^verbatim>\<open>prng.seed(seed)\<close>, which the standard
  requires to give the same state) and \<^verbatim>\<open>prng()\<close>, which returns a 64-bit word and
  advances the state. The engine is a parameter of the model: everything below holds
  for every engine.
\<close>

record 's prng =
  prng_seed :: "u64 \<Rightarrow> 's"
  prng_next :: "'s \<Rightarrow> u64 \<times> 's"

text \<open>\<^verbatim>\<open>for (size_t i = 0; i < buffer.size(); ++i) buffer[i] = prng();\<close>\<close>

fun fill_buffer :: "('s \<Rightarrow> u64 \<times> 's) \<Rightarrow> nat \<Rightarrow> 's \<Rightarrow> u64 list \<times> 's" where
  "fill_buffer nxt 0 st = ([], st)"
| "fill_buffer nxt (Suc n) st =
     (case nxt st of (w, st') \<Rightarrow>
        case fill_buffer nxt n st' of (ws, st'') \<Rightarrow> (w # ws, st''))"

text \<open>
  \<^verbatim>\<open>std::as_bytes(std::span{buffer})\<close>: the object representation of the words, eight
  bytes each, least significant byte first (the layout of the little-endian targets
  the program is built for). No statement below depends on the order within a word.
\<close>

definition word_bytes :: "u64 \<Rightarrow> byte list" where
  "word_bytes w = map (\<lambda>i. ucast (drop_bit (8 * i) w)) [0..<8]"

definition as_bytes :: "u64 list \<Rightarrow> byte list" where
  "as_bytes buffer = concat (map word_bytes buffer)"

definition buffer_words :: nat where
  "buffer_words = 1024"

text \<open>\<^verbatim>\<open>std::span{buffer}.size_bytes()\<close>\<close>

definition size_bytes :: nat where
  "size_bytes = 1024 * 8"

definition status_interval :: nat where
  "status_interval = 16 * 1024 * 1024"

definition default_seed :: u64 where
  "default_seed = 0xb473fa49a165403e"

section \<open>The environment\<close>

text \<open>
  What the C library and the operating system answer is outside the program. A
  \<open>device\<close> fixes these answers for one run: whether each call succeeds, how many
  bytes the destination accepts in total before \<^verbatim>\<open>fwrite\<close> comes back short, and
  what the storage medium returns in the read phase for the bytes written to it (the
  identity on a sound medium).
\<close>

record device =
  fopen_wb_ok :: bool
  room :: nat
  fflush_ok :: bool
  fileno_ok :: bool
  fsync_ok :: bool
  fclose_ok :: bool
  fopen_rb_ok :: bool
  medium :: "byte list \<Rightarrow> byte list"

datatype open_mode = Wb | Rb

text \<open>
  The library calls of a run, in the order they are made. \<open>Fwrite n k\<close> and
  \<open>Fread n k\<close> asked for \<open>n\<close> bytes and returned \<open>k\<close>; the other calls carry
  whether they succeeded.
\<close>

datatype call =
    Fopen string open_mode bool
  | Fwrite nat nat
  | Fflush bool
  | Fileno bool
  | Fsync bool
  | Fclose bool
  | Fread nat nat

text \<open>The diagnostics written to \<^verbatim>\<open>std::cerr\<close>.\<close>

datatype diag =
    Failed_parse_seed string
  | Failed_parse_size string
  | Usage
  | Failed_open_write
  | Failed_write
  | Failed_flush
  | Failed_fileno
  | Failed_sync
  | Failed_close
  | Failed_open_read
  | Failed_read

text \<open>
  \<^verbatim>\<open>double(a) / size * 100.0\<close>. In IEEE 754 arithmetic \<open>0 / 0\<close> is a NaN, a
  positive number over zero is infinite, and both survive the multiplication. For a
  non-zero divisor \<open>Finite\<close> carries the exact quotient: the rounding of the
  \<^verbatim>\<open>double\<close> and of the one-decimal output is not modelled.
\<close>

datatype percent = NaN | Infinite | Finite rat

definition percent_of :: "nat \<Rightarrow> nat \<Rightarrow> percent" where
  "percent_of a sz =
     (if sz = 0 then (if a = 0 then NaN else Infinite)
      else Finite (of_nat a / of_nat sz * 100))"

text \<open>The lines written to \<^verbatim>\<open>std::cout\<close>.\<close>

datatype report =
    Writing percent
  | Wrote u64
  | Reading percent
  | Read_total u64
  | Found u64 percent

text \<open>
  What a run leaves behind: the calls made, both output streams, and the content of
  the destination file.
\<close>

record run =
  calls :: "call list"
  stdout :: "report list"
  stderr :: "diag list"
  disk :: "byte list"

definition run0 :: run where
  "run0 = \<lparr>calls = [], stdout = [], stderr = [], disk = []\<rparr>"

definition sys :: "call \<Rightarrow> run \<Rightarrow> run" where
  "sys c r = r\<lparr>calls := calls r @ [c]\<rparr>"

definition cout :: "report \<Rightarrow> run \<Rightarrow> run" where
  "cout x r = r\<lparr>stdout := stdout r @ [x]\<rparr>"

definition cerr :: "diag \<Rightarrow> run \<Rightarrow> run" where
  "cerr d r = r\<lparr>stderr := stderr r @ [d]\<rparr>"

section \<open>\<^verbatim>\<open>main\<close>\<close>

subsection \<open>Lines 58 to 85: the arguments\<close>

text \<open>
  \<open>argv\<close> is the whole argument vector, program name first, so \<^verbatim>\<open>argc\<close> is its
  length. A seed that does not parse is reported, and the run goes on with the seed
  the variable already held; a size that does not parse, or a wrong number of
  arguments, ends the run (\<open>None\<close>, for \<^verbatim>\<open>return 1\<close>).
\<close>

definition parse_args :: "string list \<Rightarrow> diag list \<times> (u64 \<times> u64 \<times> string) option" where
  "parse_args argv =
     (case argv of
        [_, a1, a2] \<Rightarrow>
          (case parse_size a1 of
             None \<Rightarrow> ([Failed_parse_size a1], None)
           | Some sz \<Rightarrow> ([], Some (default_seed, sz, a2)))
      | [_, a1, a2, a3] \<Rightarrow>
          (case from_chars a1 default_seed of (first_non_number, ec, seed) \<Rightarrow>
             let d = (if ec \<noteq> errc_ok then [Failed_parse_seed a1] else [])
             in case parse_size a2 of
                  None \<Rightarrow> (d @ [Failed_parse_size a2], None)
                | Some sz \<Rightarrow> (d, Some (seed, sz, a3)))
      | _ \<Rightarrow> ([Usage], None))"

subsection \<open>Lines 98 to 115: the write loop\<close>

text \<open>
  \<open>sz\<close> is \<^verbatim>\<open>size\<close> and \<open>st\<close> the state of \<^verbatim>\<open>prng\<close>. \<^verbatim>\<open>fwrite\<close> accepts what is
  left of the room of the device. \<open>Inl\<close> is \<^verbatim>\<open>return 1\<close>.
\<close>

function write_loop :: "'s prng \<Rightarrow> device \<Rightarrow> nat \<Rightarrow> 's \<Rightarrow> nat \<Rightarrow> run \<Rightarrow> run + run" where
  "write_loop g dev sz st bytes_left r =
     (if bytes_left > 0 then
        (case fill_buffer (prng_next g) buffer_words st of (buffer, st') \<Rightarrow>
           let bytes_to_write = min bytes_left size_bytes;
               written = min bytes_to_write (room dev - length (disk r));
               r1 = sys (Fwrite bytes_to_write written)
                      (r\<lparr>disk := disk r @ take written (as_bytes buffer)\<rparr>)
           in if written < bytes_to_write then Inl (cerr Failed_write r1)
              else
                let bytes_left' = bytes_left - bytes_to_write;
                    bytes_written = sz - bytes_left';
                    r2 = (if bytes_written mod status_interval = 0 \<or> bytes_left' = 0
                          then cout (Writing (percent_of bytes_written sz)) r1 else r1)
                in write_loop g dev sz st' bytes_left' r2)
      else Inr r)"
  by pat_completeness auto
termination
  by (relation "measure (\<lambda>(g, dev, sz, st, bytes_left, r). bytes_left)")
     (auto simp: size_bytes_def)

subsection \<open>Lines 116 to 132: flush, sync, close\<close>

definition barrier :: "device \<Rightarrow> run \<Rightarrow> run + run" where
  "barrier dev r =
     (let r1 = sys (Fflush (fflush_ok dev)) r in
      if \<not> fflush_ok dev then Inl (cerr Failed_flush r1)
      else
        let r2 = sys (Fileno (fileno_ok dev)) r1 in
        if \<not> fileno_ok dev then Inl (cerr Failed_fileno r2)
        else
          let r3 = sys (Fsync (fsync_ok dev)) r2 in
          if \<not> fsync_ok dev then Inl (cerr Failed_sync r3)
          else
            let r4 = sys (Fclose (fclose_ok dev)) r3 in
            if \<not> fclose_ok dev then Inl (cerr Failed_close r4)
            else Inr r4)"

subsection \<open>Lines 147 to 169: the read loop\<close>

text \<open>
  \<^verbatim>\<open>for (size_t i = 0; i < bytes_to_read; ++i) if (read_bytes[i] != buffer_bytes[i]) ++num_errors;\<close>
  with \<^verbatim>\<open>num_errors\<close> a \<^verbatim>\<open>uint64_t\<close>.
\<close>

definition compare :: "byte list \<Rightarrow> byte list \<Rightarrow> nat \<Rightarrow> u64 \<Rightarrow> u64" where
  "compare read_bytes buffer_bytes bytes_to_read num_errors =
     foldl (\<lambda>e i. if read_bytes ! i \<noteq> buffer_bytes ! i then e + 1 else e)
       num_errors [0..<bytes_to_read]"

text \<open>
  \<open>input\<close> is what the file still holds behind the read position; \<^verbatim>\<open>fread\<close>
  returns its first \<open>bytes_to_read\<close> bytes, or all of it when it is shorter, and
  stores them at the start of \<^verbatim>\<open>read_buffer\<close>.
\<close>

function read_loop ::
  "'s prng \<Rightarrow> nat \<Rightarrow> 's \<Rightarrow> nat \<Rightarrow> byte list \<Rightarrow> byte list \<Rightarrow> u64 \<Rightarrow> run \<Rightarrow> run + (u64 \<times> run)" where
  "read_loop g sz st bytes_left input read_buffer num_errors r =
     (if bytes_left > 0 then
        (case fill_buffer (prng_next g) buffer_words st of (buffer, st') \<Rightarrow>
           let bytes_to_read = min bytes_left size_bytes;
               got = take bytes_to_read input;
               read_buffer' = got @ drop (length got) read_buffer;
               r1 = sys (Fread bytes_to_read (length got)) r
           in if length got < bytes_to_read then Inl (cerr Failed_read r1)
              else
                let bytes_left' = bytes_left - bytes_to_read;
                    num_errors' = compare read_buffer' (as_bytes buffer) bytes_to_read num_errors;
                    bytes_read = sz - bytes_left';
                    r2 = (if bytes_read mod status_interval = 0 \<or> bytes_left' = 0
                          then cout (Reading (percent_of bytes_read sz)) r1 else r1)
                in read_loop g sz st' bytes_left' (drop bytes_to_read input) read_buffer'
                     num_errors' r2)
      else Inr (num_errors, r))"
  by pat_completeness auto
termination
  by (relation "measure (\<lambda>(g, sz, st, bytes_left, rest). bytes_left)")
     (auto simp: size_bytes_def)

subsection \<open>The whole program\<close>

text \<open>
  The result is the exit status and the run. Falling off the end of \<^verbatim>\<open>main\<close>
  returns 0. \<^verbatim>\<open>fopen\<close> with \<^verbatim>\<open>"wb"\<close> truncates the file.
\<close>

definition main :: "'s prng \<Rightarrow> device \<Rightarrow> string list \<Rightarrow> int \<times> run" where
  "main g dev argv =
     (case parse_args argv of
        (d, None) \<Rightarrow> (1, run0\<lparr>stderr := d\<rparr>)
      | (d, Some (seed, sz, path)) \<Rightarrow>
          let st = prng_seed g seed;
              r1 = sys (Fopen path Wb (fopen_wb_ok dev)) (run0\<lparr>stderr := d\<rparr>)
          in if \<not> fopen_wb_ok dev then (1, cerr Failed_open_write r1)
             else
               case write_loop g dev (unat sz) st (unat sz) (r1\<lparr>disk := []\<rparr>) of
                 Inl r \<Rightarrow> (1, r)
               | Inr r2 \<Rightarrow>
                   (case barrier dev r2 of
                      Inl r \<Rightarrow> (1, r)
                    | Inr r3 \<Rightarrow>
                        let r4 = cout (Wrote sz) r3;
                            st = prng_seed g seed;
                            r5 = sys (Fopen path Rb (fopen_rb_ok dev)) r4
                        in if \<not> fopen_rb_ok dev then (1, cerr Failed_open_read r5)
                           else
                             case read_loop g (unat sz) st (unat sz) (medium dev (disk r5))
                                    (replicate size_bytes 0) 0 r5 of
                               Inl r \<Rightarrow> (1, r)
                             | Inr (num_errors, r6) \<Rightarrow>
                                 (0, cout (Found num_errors
                                             (percent_of (unat num_errors) (unat sz)))
                                       (cout (Read_total sz) r6))))"

text \<open>
  A generator and a device to run the model on: a linear congruential generator
  stands for the engine, and \<open>sound_device\<close> is a destination with room for
  everything on which every call succeeds and nothing is corrupted.
\<close>

definition lcg :: "u64 prng" where
  "lcg = \<lparr>prng_seed = (\<lambda>seed. seed),
          prng_next = (\<lambda>st. let st' = st * 6364136223846793005 + 1442695040888963407
                            in (st', st'))\<rparr>"

definition sound_device :: device where
  "sound_device = \<lparr>fopen_wb_ok = True, room = 2 ^ 64, fflush_ok = True, fileno_ok = True,
                   fsync_ok = True, fclose_ok = True, fopen_rb_ok = True,
                   medium = (\<lambda>file. file)\<rparr>"

text \<open>
  Two more devices: one whose medium changes the first byte of the file, and one on
  which \<^verbatim>\<open>fsync\<close> fails.
\<close>

definition flipping_device :: device where
  "flipping_device = sound_device\<lparr>medium := (\<lambda>file. file[0 := file ! 0 + 1])\<rparr>"

definition failing_sync_device :: device where
  "failing_sync_device = sound_device\<lparr>fsync_ok := False\<rparr>"

section \<open>Notions of the specification\<close>

text \<open>
  The factor of a unit as the specification gives it: K is 1024, and M, G and T are
  each 1024 times the unit before.
\<close>

definition unit_factor :: "char \<Rightarrow> nat" where
  "unit_factor c =
     (if c = CHR ''K'' \<or> c = CHR ''k'' then 1024
      else if c = CHR ''M'' \<or> c = CHR ''m'' then 1024 * 1024
      else if c = CHR ''G'' \<or> c = CHR ''g'' then 1024 * 1024 * 1024
      else if c = CHR ''T'' \<or> c = CHR ''t'' then 1024 * 1024 * 1024 * 1024
      else 1)"

text \<open>
  The deterministic stream, described without any buffer: \<open>advance nxt k st\<close> is
  the state after \<open>k\<close> calls of the engine, \<open>nth_word nxt st k\<close> the word the call
  number \<open>k\<close> returns (counting from 0), and byte \<open>i\<close> of the stream is byte
  \<open>i mod 8\<close> of word \<open>i div 8\<close>.
\<close>

definition advance :: "('s \<Rightarrow> u64 \<times> 's) \<Rightarrow> nat \<Rightarrow> 's \<Rightarrow> 's" where
  "advance nxt k st = ((\<lambda>s. snd (nxt s)) ^^ k) st"

definition nth_word :: "('s \<Rightarrow> u64 \<times> 's) \<Rightarrow> 's \<Rightarrow> nat \<Rightarrow> u64" where
  "nth_word nxt st k = fst (nxt (advance nxt k st))"

definition stream_byte :: "('s \<Rightarrow> u64 \<times> 's) \<Rightarrow> 's \<Rightarrow> nat \<Rightarrow> byte" where
  "stream_byte nxt st i = word_bytes (nth_word nxt st (i div 8)) ! (i mod 8)"

definition stream :: "('s \<Rightarrow> u64 \<times> 's) \<Rightarrow> 's \<Rightarrow> nat \<Rightarrow> byte list" where
  "stream nxt st n = map (stream_byte nxt st) [0..<n]"

text \<open>
  The number of positions below \<open>n\<close> at which a file differs from a reference.
\<close>

definition mismatch_count :: "byte list \<Rightarrow> (nat \<Rightarrow> byte) \<Rightarrow> nat \<Rightarrow> nat" where
  "mismatch_count file reference n = length (filter (\<lambda>i. file ! i \<noteq> reference i) [0..<n])"

text \<open>
  The requests a loop over \<open>n\<close> bytes makes with a buffer of \<open>size_bytes\<close>
  bytes: full buffers, then the rest if there is one.
\<close>

definition chunk_sizes :: "nat \<Rightarrow> nat list" where
  "chunk_sizes n =
     replicate (n div size_bytes) size_bytes @ (if n mod size_bytes = 0 then [] else [n mod size_bytes])"

text \<open>
  The kinds of calls, and a device on which the three steps of the durability
  barrier (with the \<^verbatim>\<open>fileno\<close> between them) succeed, or every call other than
  \<^verbatim>\<open>fwrite\<close> and \<^verbatim>\<open>fread\<close> does.
\<close>

definition is_fwrite :: "call \<Rightarrow> bool" where
  "is_fwrite c = (case c of Fwrite n k \<Rightarrow> True | _ \<Rightarrow> False)"

definition is_fread :: "call \<Rightarrow> bool" where
  "is_fread c = (case c of Fread n k \<Rightarrow> True | _ \<Rightarrow> False)"

definition barrier_ok :: "device \<Rightarrow> bool" where
  "barrier_ok dev = (fflush_ok dev \<and> fileno_ok dev \<and> fsync_ok dev \<and> fclose_ok dev)"

definition all_succeed :: "device \<Rightarrow> bool" where
  "all_succeed dev = (fopen_wb_ok dev \<and> barrier_ok dev \<and> fopen_rb_ok dev)"

section \<open>Auxiliary notions of the proofs\<close>

text \<open>
  The status line both loops print, \<open>bytes_left\<close> being the value after the
  subtraction.
\<close>

definition progress :: "(percent \<Rightarrow> report) \<Rightarrow> nat \<Rightarrow> nat \<Rightarrow> run \<Rightarrow> run" where
  "progress line sz bytes_left r =
     (if (sz - bytes_left) mod status_interval = 0 \<or> bytes_left = 0
      then cout (line (percent_of (sz - bytes_left) sz)) r else r)"

text \<open>
  \<open>grows P line r r'\<close>: the run \<open>r'\<close> extends \<open>r\<close> by calls that satisfy
  \<open>P\<close> and by status lines of the kind \<open>line\<close>.
\<close>

definition grows :: "(call \<Rightarrow> bool) \<Rightarrow> (percent \<Rightarrow> report) \<Rightarrow> run \<Rightarrow> run \<Rightarrow> bool" where
  "grows P line r r' =
     (\<exists>cs ps. calls r' = calls r @ cs \<and> (\<forall>c\<in>set cs. P c) \<and> stdout r' = stdout r @ map line ps)"

text \<open>
  The calls of a barrier that succeeds, and the calls and diagnostic of each way it can
  fail.
\<close>

definition barrier_calls :: "call list" where
  "barrier_calls = [Fflush True, Fileno True, Fsync True, Fclose True]"

definition barrier_failures :: "(call list \<times> diag) set" where
  "barrier_failures =
     {([Fflush False], Failed_flush),
      ([Fflush True, Fileno False], Failed_fileno),
      ([Fflush True, Fileno True, Fsync False], Failed_sync),
      ([Fflush True, Fileno True, Fsync True, Fclose False], Failed_close)}"

text \<open>
  The six ways a run with well-formed arguments can end: the destination cannot be
  opened, a write comes back short, the barrier fails, the destination cannot be
  reopened, a read comes back short, or both phases complete.
\<close>

definition outcome :: "device \<Rightarrow> diag list \<Rightarrow> u64 \<Rightarrow> string \<Rightarrow> int \<Rightarrow> run \<Rightarrow> bool" where
  "outcome dev d sz path code r =
     ((code = 1 \<and> \<not> fopen_wb_ok dev \<and> calls r = [Fopen path Wb False] \<and> stdout r = []
         \<and> stderr r = d @ [Failed_open_write])
    \<or> (\<exists>ws ps. (\<forall>c\<in>set ws. is_fwrite c) \<and> code = 1
         \<and> calls r = Fopen path Wb True # ws \<and> stdout r = map Writing ps
         \<and> stderr r = d @ [Failed_write])
    \<or> (\<exists>ws ps bs x. (\<forall>c\<in>set ws. is_fwrite c) \<and> code = 1 \<and> \<not> barrier_ok dev
         \<and> (bs, x) \<in> barrier_failures
         \<and> calls r = Fopen path Wb True # ws @ bs \<and> stdout r = map Writing ps
         \<and> stderr r = d @ [x])
    \<or> (\<exists>ws ps. (\<forall>c\<in>set ws. is_fwrite c) \<and> code = 1 \<and> barrier_ok dev
         \<and> calls r = Fopen path Wb True # ws @ barrier_calls @ [Fopen path Rb False]
         \<and> stdout r = map Writing ps @ [Wrote sz]
         \<and> stderr r = d @ [Failed_open_read])
    \<or> (\<exists>ws ps rs qs. (\<forall>c\<in>set ws. is_fwrite c) \<and> (\<forall>c\<in>set rs. is_fread c) \<and> code = 1
         \<and> barrier_ok dev
         \<and> calls r = Fopen path Wb True # ws @ barrier_calls @ Fopen path Rb True # rs
         \<and> stdout r = map Writing ps @ Wrote sz # map Reading qs
         \<and> stderr r = d @ [Failed_read])
    \<or> (\<exists>ws ps rs qs e. (\<forall>c\<in>set ws. is_fwrite c) \<and> (\<forall>c\<in>set rs. is_fread c) \<and> code = 0
         \<and> barrier_ok dev
         \<and> calls r = Fopen path Wb True # ws @ barrier_calls @ Fopen path Rb True # rs
         \<and> stdout r = map Writing ps @ Wrote sz # map Reading qs
              @ [Read_total sz, Found e (percent_of (unat e) (unat sz))]
         \<and> stderr r = d))"

text \<open>
  The statement of the durability gate for one run, \<open>p\<close> and \<open>ok\<close> being the path
  and the result of a reopening.
\<close>

definition gated :: "device \<Rightarrow> int \<Rightarrow> run \<Rightarrow> string \<Rightarrow> bool \<Rightarrow> bool" where
  "gated dev code r p ok =
    ((Fopen p Rb ok \<in> set (calls r) \<longrightarrow>
           (\<exists>ws rs. calls r = Fopen p Wb True # ws
                 @ [Fflush True, Fileno True, Fsync True, Fclose True, Fopen p Rb ok] @ rs
               \<and> (\<forall>c\<in>set ws. is_fwrite c) \<and> (\<forall>c\<in>set rs. is_fread c)))
    \<and> (\<not> (fflush_ok dev \<and> fsync_ok dev \<and> fclose_ok dev) \<longrightarrow>
           code = 1 \<and> (\<forall>q b. Fopen q Rb b \<notin> set (calls r)) \<and> (\<forall>c\<in>set (calls r). \<not> is_fread c))
    \<and> (Fflush False \<in> set (calls r) \<or> Fsync False \<in> set (calls r) \<or> Fclose False \<in> set (calls r) \<longrightarrow>
           code = 1 \<and> (\<forall>q b. Fopen q Rb b \<notin> set (calls r)) \<and> (\<forall>c\<in>set (calls r). \<not> is_fread c)))"

section \<open>Properties of the argument parsing\<close>

lemmas parse_defs = parse_size_def from_chars_def is_digit_def digit_val_def dec_value_def deref_def

lemma from_chars_digits:
  assumes "ds \<noteq> []" and "\<forall>c\<in>set ds. is_digit c" and "dec_value ds < 2 ^ 64"
    and "rest = [] \<or> \<not> is_digit (hd rest)"
  shows "from_chars (ds @ rest) v = (rest, errc_ok, of_nat (dec_value ds))"
proof -
  have r: "takeWhile is_digit rest = []" "dropWhile is_digit rest = rest"
    using assms(4) by (cases rest; simp)+
  have "takeWhile is_digit (ds @ rest) = ds" "dropWhile is_digit (ds @ rest) = rest"
    using assms(2) r by (simp_all add: takeWhile_append2 dropWhile_append2)
  then show ?thesis
    using assms(1,3) by (simp add: from_chars_def Let_def)
qed

lemma from_chars_no_digit:
  "\<not> is_digit c \<Longrightarrow> from_chars (c # s) v = (c # s, invalid_argument, v)"
  by (simp add: from_chars_def)

lemma parse_size_plain:
  assumes "ds \<noteq> []" and "\<forall>c\<in>set ds. is_digit c" and "dec_value ds < 2 ^ 64"
  shows "parse_size ds = Some (of_nat (dec_value ds))"
  using from_chars_digits [OF assms, of "[]" 0]
  by (simp add: parse_size_def deref_def)

lemma parse_size_suffix:
  assumes "ds \<noteq> []" and "\<forall>c\<in>set ds. is_digit c" and "dec_value ds < 2 ^ 64"
    and "\<not> is_digit c"
  shows "parse_size (ds @ c # rest) =
     (if c \<in> set ''KkMmGgTt'' then Some (of_nat (dec_value ds * unit_factor c))
      else if c = CHR 0x00 then Some (of_nat (dec_value ds)) else None)"
  using from_chars_digits [OF assms(1-3), of "c # rest" 0] assms(4)
  by (simp add: parse_size_def deref_def unit_factor_def)

lemma parse_size_no_digit: "\<not> is_digit c \<Longrightarrow> parse_size (c # s) = None"
  by (simp add: parse_size_def from_chars_no_digit)

lemma suffix_not_digit: "c \<in> set ''KkMmGgTt'' \<Longrightarrow> \<not> is_digit c"
  by (auto simp: is_digit_def)

lemma main_size_rejected3:
  "parse_size a = None \<Longrightarrow> main g dev [p, a, path] = (1, run0\<lparr>stderr := [Failed_parse_size a]\<rparr>)"
  by (simp add: main_def parse_args_def)

lemma main_size_rejected4:
  "parse_size a = None \<Longrightarrow>
     fst (main g dev [p, s, a, path]) = 1 \<and> calls (snd (main g dev [p, s, a, path])) = []
     \<and> last (stderr (snd (main g dev [p, s, a, path]))) = Failed_parse_size a"
  by (simp add: main_def parse_args_def run0_def Let_def split: prod.splits)

text \<open>
  C4. \<^verbatim>\<open>parse_size\<close> maps \<^verbatim>\<open>"1K"\<close> to 1024, \<^verbatim>\<open>"2M"\<close> to 2097152, \<^verbatim>\<open>"1"\<close> to 1
  and \<^verbatim>\<open>"3G"\<close> to \<open>3 * 1024 ^ 3\<close>. In general a decimal number that fits 64 bits
  is returned as it is when nothing follows it, and multiplied by the factor of its
  unit when one of K, M, G, T follows in either case, each unit 1024 times the one
  before. \<^verbatim>\<open>"5X"\<close>, \<^verbatim>\<open>"abc"\<close> and the empty argument are rejected, as is every
  argument that does not start with a digit and every number followed by a character
  that is no unit. A rejected size is fatal: \<^verbatim>\<open>main\<close> writes the diagnostic naming
  the argument and returns 1 before any call on the file, with two arguments and with
  three.
\<close>
theorem parse_size_units:
  "parse_size ''1K'' = Some 1024 \<and> parse_size ''2M'' = Some 2097152
   \<and> parse_size ''1'' = Some 1 \<and> parse_size ''3G'' = Some (3 * 1024 ^ 3)
   \<and> parse_size ''5X'' = None \<and> parse_size ''abc'' = None \<and> parse_size [] = None
   \<and> (ds \<noteq> [] \<and> (\<forall>d\<in>set ds. is_digit d) \<and> dec_value ds < 2 ^ 64 \<longrightarrow>
        parse_size ds = Some (of_nat (dec_value ds))
        \<and> (\<forall>c\<in>set ''KkMmGgTt''.
              parse_size (ds @ [c]) = Some (of_nat (dec_value ds * unit_factor c)))
        \<and> (\<not> is_digit x \<and> x \<notin> set ''KkMmGgTt'' \<and> x \<noteq> CHR 0x00 \<longrightarrow>
              parse_size (ds @ x # rest) = None))
   \<and> (\<not> is_digit x \<longrightarrow> parse_size (x # rest) = None)
   \<and> (parse_size a = None \<longrightarrow>
        main g dev [p, a, path] = (1, run0\<lparr>stderr := [Failed_parse_size a]\<rparr>)
        \<and> fst (main g dev [p, s, a, path]) = 1
        \<and> calls (snd (main g dev [p, s, a, path])) = []
        \<and> last (stderr (snd (main g dev [p, s, a, path]))) = Failed_parse_size a)"
proof -
  have ex: "parse_size ''1K'' = Some 1024" "parse_size ''2M'' = Some 2097152"
    "parse_size ''1'' = Some 1" "parse_size ''3G'' = Some (3 * 1024 ^ 3)"
    "parse_size ''5X'' = None" "parse_size ''abc'' = None" "parse_size [] = None"
    by (simp_all add: parse_defs)
  have gen: "parse_size ds = Some (of_nat (dec_value ds))
        \<and> (\<forall>c\<in>set ''KkMmGgTt''.
              parse_size (ds @ [c]) = Some (of_nat (dec_value ds * unit_factor c)))
        \<and> (\<not> is_digit x \<and> x \<notin> set ''KkMmGgTt'' \<and> x \<noteq> CHR 0x00 \<longrightarrow>
              parse_size (ds @ x # rest) = None)"
    if h: "ds \<noteq> []" "\<forall>d\<in>set ds. is_digit d" "dec_value ds < 2 ^ 64"
  proof (intro conjI ballI impI)
    show "parse_size ds = Some (of_nat (dec_value ds))"
      by (rule parse_size_plain [OF h])
  next
    fix c assume c: "c \<in> set ''KkMmGgTt''"
    then show "parse_size (ds @ [c]) = Some (of_nat (dec_value ds * unit_factor c))"
      using parse_size_suffix [OF h suffix_not_digit [OF c], of "[]"] by simp
  next
    assume "\<not> is_digit x \<and> x \<notin> set ''KkMmGgTt'' \<and> x \<noteq> CHR 0x00"
    then show "parse_size (ds @ x # rest) = None"
      using parse_size_suffix [OF h, of x rest] by simp
  qed
  show ?thesis
    using ex gen parse_size_no_digit [of x rest] main_size_rejected3 [of a g dev p path]
      main_size_rejected4 [of a g dev p s path]
    by blast
qed

text \<open>The statement at the number 12, the character \<^verbatim>\<open>#\<close> and the argument \<^verbatim>\<open>"5X"\<close>.\<close>
theorem parse_size_units_witness:
  "parse_size ''12'' = Some 12 \<and> parse_size ''12k'' = Some 12288
   \<and> parse_size ''12G'' = Some 12884901888
   \<and> parse_size ''12#zz'' = None \<and> parse_size ''#zz'' = None
   \<and> main lcg sound_device [''wrt'', ''5X'', ''f''] = (1, run0\<lparr>stderr := [Failed_parse_size ''5X'']\<rparr>)
   \<and> fst (main lcg sound_device [''wrt'', ''7'', ''5X'', ''f'']) = 1"
proof -
  have d: "''12'' \<noteq> [] \<and> (\<forall>d\<in>set ''12''. is_digit d) \<and> dec_value ''12'' < 2 ^ 64"
    by (simp add: is_digit_def dec_value_def digit_val_def)
  have x: "\<not> is_digit CHR ''#'' \<and> CHR ''#'' \<notin> set ''KkMmGgTt'' \<and> CHR ''#'' \<noteq> CHR 0x00"
    by (simp add: is_digit_def)
  have v: "dec_value ''12'' = 12" "unit_factor CHR ''k'' = 1024"
    "unit_factor CHR ''G'' = 1024 * 1024 * 1024"
    by (simp_all add: dec_value_def digit_val_def unit_factor_def)
  have n: "parse_size ''5X'' = None"
    by (simp add: parse_defs)
  show ?thesis
    using parse_size_units [of "''12''" "CHR ''#''" "''zz''" "''5X''" lcg sound_device
        "''wrt''" "''f''" "''7''"] d x v n
    by simp
qed

text \<open>
  C9. After a number and a unit character \<^verbatim>\<open>parse_size\<close> looks no further: whatever
  follows the unit is ignored, so \<^verbatim>\<open>"1KB"\<close> is accepted as 1024 and
  \<^verbatim>\<open>"7Mxyz"\<close> as \<open>7 * 1024\<^sup>2\<close>, and in general the argument with trailing characters
  gives what the argument cut after the unit gives, which is a size and no rejection.
\<close>
theorem parse_size_trailing_ignored:
  "parse_size ''1KB'' = Some 1024 \<and> parse_size ''7Mxyz'' = Some (7 * 1024 * 1024)
   \<and> (ds \<noteq> [] \<and> (\<forall>d\<in>set ds. is_digit d) \<and> dec_value ds < 2 ^ 64
        \<and> c \<in> set ''KkMmGgTt'' \<longrightarrow>
        parse_size (ds @ c # rest) = parse_size (ds @ [c])
        \<and> parse_size (ds @ c # rest) = Some (of_nat (dec_value ds * unit_factor c)))"
proof -
  have ex: "parse_size ''1KB'' = Some 1024" "parse_size ''7Mxyz'' = Some (7 * 1024 * 1024)"
    by (simp_all add: parse_defs)
  have gen: "parse_size (ds @ c # rest) = parse_size (ds @ [c])
        \<and> parse_size (ds @ c # rest) = Some (of_nat (dec_value ds * unit_factor c))"
    if h: "ds \<noteq> []" "\<forall>d\<in>set ds. is_digit d" "dec_value ds < 2 ^ 64"
      and c: "c \<in> set ''KkMmGgTt''"
    using parse_size_suffix [OF h suffix_not_digit [OF c], of rest]
      parse_size_suffix [OF h suffix_not_digit [OF c], of "[]"] c
    by simp
  show ?thesis using ex gen by blast
qed

text \<open>The statement at \<^verbatim>\<open>"40gigabytes"\<close>.\<close>
theorem parse_size_trailing_ignored_witness:
  "parse_size ''40gigabytes'' = parse_size ''40g''
   \<and> parse_size ''40gigabytes'' = Some 42949672960"
proof -
  have d: "''40'' \<noteq> [] \<and> (\<forall>d\<in>set ''40''. is_digit d) \<and> dec_value ''40'' < 2 ^ 64
      \<and> CHR ''g'' \<in> set ''KkMmGgTt''"
    by (simp add: is_digit_def dec_value_def digit_val_def)
  have v: "dec_value ''40'' = 40" "unit_factor CHR ''g'' = 1024 * 1024 * 1024"
    by (simp_all add: dec_value_def digit_val_def unit_factor_def)
  show ?thesis
    using parse_size_trailing_ignored [of "''40''" "CHR ''g''" "''igabytes''"] d v
    by auto
qed

text \<open>
  C10. The multiplications of \<^verbatim>\<open>parse_size\<close> are not checked for overflow. When the
  number fits 64 bits and its product with the factor of the unit does not, the
  argument is still accepted, and the size returned is the product modulo \<open>2\<^sup>6\<^sup>4\<close>;
  \<^verbatim>\<open>"16777216T"\<close> gives 0.
\<close>
theorem parse_size_wraps:
  "parse_size ''16777216T'' = Some 0
   \<and> (ds \<noteq> [] \<and> (\<forall>d\<in>set ds. is_digit d) \<and> dec_value ds < 2 ^ 64
        \<and> c \<in> set ''KkMmGgTt'' \<and> 2 ^ 64 - 1 < dec_value ds * unit_factor c \<longrightarrow>
        (\<exists>v. parse_size (ds @ c # rest) = Some v
             \<and> unat v = (dec_value ds * unit_factor c) mod 2 ^ 64))"
proof -
  have ex: "parse_size ''16777216T'' = Some 0"
    by (simp add: parse_defs)
  have gen: "\<exists>v. parse_size (ds @ c # rest) = Some v
             \<and> unat v = (dec_value ds * unit_factor c) mod 2 ^ 64"
    if h: "ds \<noteq> []" "\<forall>d\<in>set ds. is_digit d" "dec_value ds < 2 ^ 64"
      and c: "c \<in> set ''KkMmGgTt''"
  proof -
    have "parse_size (ds @ c # rest) = Some (of_nat (dec_value ds * unit_factor c))"
      using parse_size_suffix [OF h suffix_not_digit [OF c], of rest] c by simp
    moreover have "unat (of_nat (dec_value ds * unit_factor c) :: u64)
        = (dec_value ds * unit_factor c) mod 2 ^ 64"
      unfolding unat_of_nat by simp
    ultimately show ?thesis by blast
  qed
  show ?thesis using ex gen by blast
qed

text \<open>The statement at \<^verbatim>\<open>"16777217Tb"\<close>, whose product is \<open>2\<^sup>6\<^sup>4 + 2\<^sup>4\<^sup>0\<close>.\<close>
theorem parse_size_wraps_witness:
  "(\<exists>v. parse_size ''16777217Tb'' = Some v \<and> unat v = 1099511627776)
   \<and> (2::nat) ^ 64 - 1 < 16777217 * (1024 * 1024 * 1024 * 1024)"
proof -
  have d: "''16777217'' \<noteq> [] \<and> (\<forall>d\<in>set ''16777217''. is_digit d)
      \<and> dec_value ''16777217'' < 2 ^ 64 \<and> CHR ''T'' \<in> set ''KkMmGgTt''"
    by (simp add: is_digit_def dec_value_def digit_val_def)
  have v: "dec_value ''16777217'' = 16777217"
    "unit_factor CHR ''T'' = 1024 * 1024 * 1024 * 1024"
    by (simp_all add: dec_value_def digit_val_def unit_factor_def)
  have o: "(2::nat) ^ 64 - 1 < 16777217 * (1024 * 1024 * 1024 * 1024)"
    by simp
  show ?thesis
    using parse_size_wraps [of "''16777217''" "CHR ''T''" "''b''"] d v o
    by simp
qed

section \<open>The stream and the buffer\<close>

lemma advance_Suc: "advance nxt (Suc k) st = advance nxt k (snd (nxt st))"
  using funpow_swap1 [of "\<lambda>s. snd (nxt s)" k st] by (simp add: advance_def)

lemma advance_add: "advance nxt (m + k) st = advance nxt k (advance nxt m st)"
  by (simp add: advance_def funpow_add add.commute)

lemma nth_word_Suc: "nth_word nxt st (Suc k) = nth_word nxt (snd (nxt st)) k"
  by (simp add: nth_word_def advance_Suc)

lemma nth_word_add: "nth_word nxt st (m + k) = nth_word nxt (advance nxt m st) k"
  by (simp add: nth_word_def advance_add)

lemma fill_buffer_eq:
  "fill_buffer nxt n st = (map (nth_word nxt st) [0..<n], advance nxt n st)"
proof (induction n arbitrary: st)
  case 0
  show ?case by (simp add: advance_def)
next
  case (Suc n)
  obtain w st' where w: "nxt st = (w, st')" by (cases "nxt st")
  have "map (nth_word nxt st) [0..<Suc n] = nth_word nxt st 0 # map (\<lambda>k. nth_word nxt st (Suc k)) [0..<n]"
    by (simp only: map_upt_Suc)
  then show ?case
    using w Suc.IH [of st'] by (simp add: nth_word_Suc advance_Suc) (simp add: nth_word_def advance_def)
qed

lemma word_bytes_example:
  "word_bytes 0x0102030405060708 = [0x08, 0x07, 0x06, 0x05, 0x04, 0x03, 0x02, 0x01]"
  by (simp add: word_bytes_def upt_rec drop_bit_eq_div)

lemma length_word_bytes: "length (word_bytes w) = 8"
  by (simp add: word_bytes_def)

lemma length_as_bytes: "length (as_bytes ws) = 8 * length ws"
  by (induction ws) (simp_all add: as_bytes_def length_word_bytes)

lemma nth_as_bytes:
  "i < 8 * length ws \<Longrightarrow> as_bytes ws ! i = word_bytes (ws ! (i div 8)) ! (i mod 8)"
proof (induction ws arbitrary: i)
  case Nil
  then show ?case by simp
next
  case (Cons w ws)
  show ?case
  proof (cases "i < 8")
    case True
    then show ?thesis by (simp add: as_bytes_def nth_append length_word_bytes)
  next
    case False
    then have i: "i div 8 = Suc ((i - 8) div 8)" "i mod 8 = (i - 8) mod 8"
      by (simp_all add: le_div_geq le_mod_geq)
    have "as_bytes (w # ws) ! i = as_bytes ws ! (i - 8)"
      using False by (simp add: as_bytes_def nth_append length_word_bytes)
    also have "\<dots> = word_bytes (ws ! ((i - 8) div 8)) ! ((i - 8) mod 8)"
      using Cons.prems False by (intro Cons.IH) simp
    also have "\<dots> = word_bytes ((w # ws) ! (i div 8)) ! (i mod 8)"
      by (simp add: i)
    finally show ?thesis .
  qed
qed

lemma take_buffer_stream:
  assumes "m \<le> 8 * n"
  shows "take m (as_bytes (map (nth_word nxt st) [0..<n])) = stream nxt st m"
proof (rule nth_equalityI)
  show "length (take m (as_bytes (map (nth_word nxt st) [0..<n]))) = length (stream nxt st m)"
    using assms by (simp add: length_as_bytes stream_def)
next
  fix i assume "i < length (take m (as_bytes (map (nth_word nxt st) [0..<n])))"
  then have i: "i < m" by simp
  then have "i < n * 8" using assms by simp
  then have d: "i div 8 < n" by (rule less_mult_imp_div_less)
  show "take m (as_bytes (map (nth_word nxt st) [0..<n])) ! i = stream nxt st m ! i"
    using i d assms by (simp add: nth_as_bytes stream_def stream_byte_def)
qed

lemma stream_byte_shift:
  "stream_byte nxt st (8 * k + j) = stream_byte nxt (advance nxt k st) j"
proof -
  have "(8 * k + j) div 8 = k + j div 8" "(8 * k + j) mod 8 = j mod 8" by simp_all
  then show ?thesis by (simp add: stream_byte_def nth_word_add)
qed

lemma stream_append:
  "stream nxt st (8 * k + n) = stream nxt st (8 * k) @ stream nxt (advance nxt k st) n"
proof -
  have "[0..<8 * k + n] = [0..<8 * k] @ [8 * k..<8 * k + n]"
    by (rule upt_add_eq_append) simp
  moreover have "[8 * k..<8 * k + n] = map (\<lambda>j. j + 8 * k) [0..<n]"
    by (simp only: map_add_upt add.commute [of n])
  moreover have "\<And>j. stream_byte nxt st (j + 8 * k) = stream_byte nxt (advance nxt k st) j"
    using stream_byte_shift [of nxt st k] by (simp only: add.commute [of _ "8 * k"])
  ultimately show ?thesis
    by (simp add: stream_def comp_def)
qed

lemma length_stream: "length (stream nxt st n) = n"
  by (simp add: stream_def)

lemma nth_stream: "i < n \<Longrightarrow> stream nxt st n ! i = stream_byte nxt st i"
  by (simp add: stream_def)

lemma chunk_sizes_0: "chunk_sizes 0 = []"
  by (simp add: chunk_sizes_def)

lemma chunk_sizes_step:
  "0 < n \<Longrightarrow> chunk_sizes n = min n size_bytes # chunk_sizes (n - min n size_bytes)"
proof (cases "n < size_bytes")
  case True
  assume "0 < n"
  with True show ?thesis by (simp add: chunk_sizes_def)
next
  case False
  then have n: "n = (n - size_bytes) + size_bytes" by simp
  have d: "n div size_bytes = Suc ((n - size_bytes) div size_bytes)"
    "n mod size_bytes = (n - size_bytes) mod size_bytes"
    using False by (simp_all add: size_bytes_def le_div_geq le_mod_geq not_less)
  show ?thesis
    using False by (simp add: chunk_sizes_def d min_def)
qed

declare write_loop.simps [simp del] read_loop.simps [simp del]

lemmas run_ops = sys_def cout_def cerr_def

section \<open>The loops\<close>

lemma progress_fields:
  "calls (progress line sz k r) = calls r" "stderr (progress line sz k r) = stderr r"
  "disk (progress line sz k r) = disk r"
  by (simp_all add: progress_def cout_def)

lemma progress_stdout: "\<exists>ps. stdout (progress line sz k r) = stdout r @ map line ps"
proof (cases "(sz - k) mod status_interval = 0 \<or> k = 0")
  case True
  then have "stdout (progress line sz k r) = stdout r @ map line [percent_of (sz - k) sz]"
    by (simp add: progress_def cout_def)
  then show ?thesis by blast
next
  case False
  then have "stdout (progress line sz k r) = stdout r @ map line []"
    by (simp add: progress_def)
  then show ?thesis by blast
qed

lemma write_loop_0: "write_loop g dev sz st 0 r = Inr r"
  by (subst write_loop.simps) simp

lemma write_loop_step:
  assumes "0 < n"
  shows "write_loop g dev sz st n r =
    (let m = min n size_bytes;
         written = min m (room dev - length (disk r));
         r1 = sys (Fwrite m written) (r\<lparr>disk := disk r @ stream (prng_next g) st written\<rparr>)
     in if written < m then Inl (cerr Failed_write r1)
        else write_loop g dev sz (advance (prng_next g) buffer_words st) (n - m)
               (progress Writing sz (n - m) r1))"
proof -
  have tk: "take (min (min n size_bytes) (room dev - length (disk r)))
          (as_bytes (map (nth_word (prng_next g) st) [0..<buffer_words]))
        = stream (prng_next g) st (min (min n size_bytes) (room dev - length (disk r)))"
    by (rule take_buffer_stream) (simp add: size_bytes_def buffer_words_def)
  show ?thesis
    by (subst write_loop.simps)
      (simp only: assms if_True fill_buffer_eq prod.case Let_def tk progress_def)
qed

lemma write_loop_fail:
  assumes "0 < n" and "m = min n size_bytes" and "written = min m (room dev - length (disk r))"
    and "written < m"
  shows "write_loop g dev sz st n r = Inl (cerr Failed_write
     (sys (Fwrite m written) (r\<lparr>disk := disk r @ stream (prng_next g) st written\<rparr>)))"
  using assms(4) unfolding write_loop_step [OF assms(1)] assms(2,3) Let_def
  by (simp only: if_True if_False)

lemma write_loop_next:
  assumes "0 < n" and "m = min n size_bytes" and "written = min m (room dev - length (disk r))"
    and "\<not> written < m"
  shows "write_loop g dev sz st n r =
     write_loop g dev sz (advance (prng_next g) buffer_words st) (n - m)
       (progress Writing sz (n - m)
          (sys (Fwrite m written) (r\<lparr>disk := disk r @ stream (prng_next g) st written\<rparr>)))"
  using assms(4) unfolding write_loop_step [OF assms(1)] assms(2,3) Let_def
  by (simp only: if_True if_False)

lemma stream_chunk:
  "0 < n \<Longrightarrow> stream nxt st (min n size_bytes)
      @ stream nxt (advance nxt buffer_words st) (n - min n size_bytes) = stream nxt st n"
proof (cases "n \<le> size_bytes")
  case True
  then show ?thesis by (simp add: min_def stream_def)
next
  case False
  then have "n = 8 * buffer_words + (n - size_bytes)"
    by (simp add: size_bytes_def buffer_words_def)
  then have "stream nxt st n = stream nxt st (8 * buffer_words)
      @ stream nxt (advance nxt buffer_words st) (n - size_bytes)"
    using stream_append [of nxt st buffer_words "n - size_bytes"] by simp
  then show ?thesis
    using False by (simp add: min_def size_bytes_def buffer_words_def)
qed

lemma write_loop_sound:
  "length (disk r) + n \<le> room dev \<Longrightarrow>
   \<exists>r'. write_loop g dev sz st n r = Inr r'
       \<and> disk r' = disk r @ stream (prng_next g) st n
       \<and> calls r' = calls r @ map (\<lambda>k. Fwrite k k) (chunk_sizes n)
       \<and> stderr r' = stderr r
       \<and> (\<exists>ps. stdout r' = stdout r @ map Writing ps)"
proof (induction n arbitrary: st r rule: less_induct)
  case (less n)
  show ?case
  proof (cases "n = 0")
    case True
    then show ?thesis by (simp add: write_loop_0 chunk_sizes_0 stream_def)
  next
    case False
    then have pos: "0 < n" by simp
    define m where "m = min n size_bytes"
    define r1 where "r1 = sys (Fwrite m m) (r\<lparr>disk := disk r @ stream (prng_next g) st m\<rparr>)"
    define r2 where "r2 = progress Writing sz (n - m) r1"
    have m: "0 < m" "m \<le> n" using pos by (simp_all add: m_def size_bytes_def)
    have w: "m = min m (room dev - length (disk r))"
      using less.prems m by simp
    have step: "write_loop g dev sz st n r
        = write_loop g dev sz (advance (prng_next g) buffer_words st) (n - m) r2"
      unfolding r2_def r1_def by (rule write_loop_next [OF pos m_def w]) simp
    have r2: "disk r2 = disk r @ stream (prng_next g) st m"
      "calls r2 = calls r @ [Fwrite m m]" "stderr r2 = stderr r"
      by (simp_all add: r2_def progress_fields r1_def sys_def)
    obtain qs where qs: "stdout r2 = stdout r @ map Writing qs"
      using progress_stdout [of Writing sz "n - m" r1] by (auto simp: r2_def r1_def sys_def)
    have "length (disk r2) + (n - m) \<le> room dev"
      using less.prems m by (simp add: r2 length_stream)
    from less.IH [OF _ this, of "advance (prng_next g) buffer_words st"] m
    obtain r' ps where r': "write_loop g dev sz (advance (prng_next g) buffer_words st) (n - m) r2 = Inr r'"
      "disk r' = disk r2 @ stream (prng_next g) (advance (prng_next g) buffer_words st) (n - m)"
      "calls r' = calls r2 @ map (\<lambda>k. Fwrite k k) (chunk_sizes (n - m))"
      "stderr r' = stderr r2" "stdout r' = stdout r2 @ map Writing ps"
      by auto
    have "stdout r' = stdout r @ map Writing (qs @ ps)"
      by (simp add: r'(5) qs)
    moreover have "disk r' = disk r @ stream (prng_next g) st n"
      using stream_chunk [OF pos, of "prng_next g" st] by (simp add: r'(2) r2 m_def)
    moreover have "calls r' = calls r @ map (\<lambda>k. Fwrite k k) (chunk_sizes n)"
      using chunk_sizes_step [OF pos] by (simp add: r'(3) r2 m_def)
    ultimately show ?thesis
      using step r'(1,4) r2(3) by (intro exI [of _ r'] conjI exI [of _ "qs @ ps"]) simp_all
  qed
qed

lemma grows_refl: "grows P line r r"
proof -
  have "calls r = calls r @ [] \<and> (\<forall>c\<in>set []. P c) \<and> stdout r = stdout r @ map line []"
    by simp
  then show ?thesis unfolding grows_def by blast
qed

lemma grows_trans:
  assumes "grows P line r r1" and "grows P line r1 r2"
  shows "grows P line r r2"
proof -
  from assms(1) obtain cs ps where 1: "calls r1 = calls r @ cs" "\<forall>c\<in>set cs. P c"
    "stdout r1 = stdout r @ map line ps" unfolding grows_def by blast
  from assms(2) obtain ds qs where 2: "calls r2 = calls r1 @ ds" "\<forall>c\<in>set ds. P c"
    "stdout r2 = stdout r1 @ map line qs" unfolding grows_def by blast
  have "calls r2 = calls r @ (cs @ ds) \<and> (\<forall>c\<in>set (cs @ ds). P c)
      \<and> stdout r2 = stdout r @ map line (ps @ qs)"
    using 1 2 by auto
  then show ?thesis unfolding grows_def by blast
qed

lemma grows_call:
  assumes "calls r1 = calls r @ [c]" and "P c" and "stdout r1 = stdout r"
  shows "grows P line r r1"
proof -
  have "calls r1 = calls r @ [c] \<and> (\<forall>x\<in>set [c]. P x) \<and> stdout r1 = stdout r @ map line []"
    using assms by simp
  then show ?thesis unfolding grows_def by blast
qed

lemma grows_progress: "grows P line r (progress line sz k r)"
proof -
  obtain ps where "stdout (progress line sz k r) = stdout r @ map line ps"
    using progress_stdout by blast
  then have "calls (progress line sz k r) = calls r @ [] \<and> (\<forall>c\<in>set []. P c)
      \<and> stdout (progress line sz k r) = stdout r @ map line ps"
    by (simp add: progress_fields)
  then show ?thesis unfolding grows_def by blast
qed

lemma write_loop_shape:
  "case write_loop g dev sz st n r of
     Inl r' \<Rightarrow> stderr r' = stderr r @ [Failed_write] \<and> grows is_fwrite Writing r r'
   | Inr r' \<Rightarrow> stderr r' = stderr r \<and> grows is_fwrite Writing r r'"
proof (induction n arbitrary: st r rule: less_induct)
  case (less n)
  show ?case
  proof (cases "n = 0")
    case True
    then show ?thesis by (simp add: write_loop_0 grows_refl)
  next
    case False
    then have pos: "0 < n" by simp
    define m where "m = min n size_bytes"
    define written where "written = min m (room dev - length (disk r))"
    define r1 where "r1 = sys (Fwrite m written) (r\<lparr>disk := disk r @ stream (prng_next g) st written\<rparr>)"
    define r2 where "r2 = progress Writing sz (n - m) r1"
    have m: "0 < m" "m \<le> n" using pos by (simp_all add: m_def size_bytes_def)
    have r1: "calls r1 = calls r @ [Fwrite m written]" "stderr r1 = stderr r" "stdout r1 = stdout r"
      by (simp_all add: r1_def run_ops)
    have g1: "grows is_fwrite Writing r r1"
      by (rule grows_call [OF r1(1) _ r1(3)]) (simp add: is_fwrite_def)
    show ?thesis
    proof (cases "written < m")
      case True
      have "write_loop g dev sz st n r = Inl (cerr Failed_write r1)"
        unfolding r1_def by (rule write_loop_fail [OF pos m_def written_def True])
      moreover have "grows is_fwrite Writing r1 (cerr Failed_write r1)"
        by (simp add: grows_def cerr_def)
      moreover have "stderr (cerr Failed_write r1) = stderr r @ [Failed_write]"
        by (simp add: cerr_def r1)
      ultimately show ?thesis using grows_trans [OF g1] by simp
    next
      case False
      have step: "write_loop g dev sz st n r
          = write_loop g dev sz (advance (prng_next g) buffer_words st) (n - m) r2"
        unfolding r2_def r1_def by (rule write_loop_next [OF pos m_def written_def False])
      have lt: "n - m < n" using m by simp
      have g2: "grows is_fwrite Writing r r2" "stderr r2 = stderr r"
        unfolding r2_def using grows_trans [OF g1 grows_progress] by (simp_all add: progress_fields r1)
      show ?thesis
        using less.IH [OF lt, where st = "advance (prng_next g) buffer_words st" and r = r2]
          grows_trans [OF g2(1)]
        by (auto simp: step g2(2) split: sum.splits)
    qed
  qed
qed

lemma read_loop_0: "read_loop g sz st 0 input rb ne r = Inr (ne, r)"
  by (subst read_loop.simps) simp

lemma read_loop_step:
  assumes "0 < n"
  shows "read_loop g sz st n input rb ne r =
    (let m = min n size_bytes;
         got = take m input;
         rb' = got @ drop (length got) rb;
         r1 = sys (Fread m (length got)) r
     in if length got < m then Inl (cerr Failed_read r1)
        else read_loop g sz (advance (prng_next g) buffer_words st) (n - m) (drop m input) rb'
               (compare rb' (as_bytes (map (nth_word (prng_next g) st) [0..<buffer_words])) m ne)
               (progress Reading sz (n - m) r1))"
  by (subst read_loop.simps)
    (simp only: assms if_True fill_buffer_eq prod.case Let_def progress_def)

lemma foldl_count:
  "foldl (\<lambda>e i. if P i then e + 1 else e) (ne :: u64) xs = ne + of_nat (length (filter P xs))"
  by (induction xs arbitrary: ne) simp_all

lemma compare_eq:
  assumes "m \<le> length input" and "m \<le> size_bytes"
  shows "compare (take m input @ rest) (as_bytes (map (nth_word nxt st) [0..<buffer_words])) m ne
    = ne + of_nat (mismatch_count input (stream_byte nxt st) m)"
proof -
  have "filter (\<lambda>i. (take m input @ rest) ! i
            \<noteq> as_bytes (map (nth_word nxt st) [0..<buffer_words]) ! i) [0..<m]
      = filter (\<lambda>i. input ! i \<noteq> stream_byte nxt st i) [0..<m]"
  proof (rule filter_cong [OF refl])
    fix i assume "i \<in> set [0..<m]"
    then have i: "i < m" by simp
    then have "i < 8 * buffer_words" using assms(2) by (simp add: size_bytes_def buffer_words_def)
    then have d: "i div 8 < buffer_words" by simp
    have 1: "(take m input @ rest) ! i = input ! i"
      using i assms(1) by (simp add: nth_append)
    have 2: "as_bytes (map (nth_word nxt st) [0..<buffer_words]) ! i = stream_byte nxt st i"
      using \<open>i < 8 * buffer_words\<close> d by (simp add: nth_as_bytes stream_byte_def)
    show "((take m input @ rest) ! i \<noteq> as_bytes (map (nth_word nxt st) [0..<buffer_words]) ! i)
        = (input ! i \<noteq> stream_byte nxt st i)"
      by (simp only: 1 2)
  qed
  then show ?thesis
    by (simp only: compare_def foldl_count mismatch_count_def)
qed

lemma read_loop_fail:
  assumes "0 < n" and "m = min n size_bytes" and "length input < m"
  shows "read_loop g sz st n input rb ne r = Inl (cerr Failed_read (sys (Fread m (length input)) r))"
proof -
  have "take m input = input" using assms(3) by simp
  then show ?thesis
    using assms(3) unfolding read_loop_step [OF assms(1)] Let_def assms(2) [symmetric]
    by (simp only: if_True)
qed

lemma read_loop_next:
  assumes "0 < n" and "m = min n size_bytes" and "m \<le> length input"
  shows "read_loop g sz st n input rb ne r =
     read_loop g sz (advance (prng_next g) buffer_words st) (n - m) (drop m input)
       (take m input @ drop m rb)
       (ne + of_nat (mismatch_count input (stream_byte (prng_next g) st) m))
       (progress Reading sz (n - m) (sys (Fread m m) r))"
proof -
  have l: "length (take m input) = m" using assms(3) by simp
  have n: "\<not> m < m" by simp
  have "m \<le> size_bytes" using assms(2) by simp
  note c = compare_eq [OF assms(3) this]
  show ?thesis
    unfolding read_loop_step [OF assms(1)] Let_def assms(2) [symmetric] l c
    by (simp only: n if_False)
qed

lemma mismatch_count_chunk:
  assumes "0 < n" and "n \<le> length input"
  shows "mismatch_count input (stream_byte nxt st) (min n size_bytes)
      + mismatch_count (drop (min n size_bytes) input)
          (stream_byte nxt (advance nxt buffer_words st)) (n - min n size_bytes)
    = mismatch_count input (stream_byte nxt st) n"
proof (cases "n \<le> size_bytes")
  case True
  then show ?thesis by (simp add: min_def mismatch_count_def)
next
  case False
  define m where "m = size_bytes"
  have m: "m = 8 * buffer_words" "m \<le> n" "min n size_bytes = m"
    using False by (simp_all add: m_def size_bytes_def buffer_words_def)
  have "[0..<n] = [0..<m] @ [m..<m + (n - m)]"
    using m(2) upt_add_eq_append [of 0 m "n - m"] by simp
  moreover have "[m..<m + (n - m)] = map (\<lambda>j. j + m) [0..<n - m]"
    by (simp only: map_add_upt add.commute [of "n - m"])
  ultimately have split: "[0..<n] = [0..<m] @ map (\<lambda>j. j + m) [0..<n - m]" by simp
  have sh: "stream_byte nxt st (j + m) = stream_byte nxt (advance nxt buffer_words st) j" for j
    using stream_byte_shift [of nxt st buffer_words j] by (simp add: m(1) add.commute)
  have dr: "drop m input ! j = input ! (j + m)" if "j < n - m" for j
    using that assms(2) m(2) by (simp add: add.commute)
  have "filter ((\<lambda>i. input ! i \<noteq> stream_byte nxt st i) \<circ> (\<lambda>j. j + m)) [0..<n - m]
      = filter (\<lambda>j. drop m input ! j \<noteq> stream_byte nxt (advance nxt buffer_words st) j) [0..<n - m]"
    by (rule filter_cong [OF refl]) (simp add: sh dr)
  then show ?thesis
    unfolding m(3) mismatch_count_def split filter_append filter_map length_append length_map
    by simp
qed

lemma read_loop_sound:
  "n \<le> length input \<Longrightarrow>
   \<exists>r'. read_loop g sz st n input rb ne r
          = Inr (ne + of_nat (mismatch_count input (stream_byte (prng_next g) st) n), r')
       \<and> calls r' = calls r @ map (\<lambda>k. Fread k k) (chunk_sizes n)
       \<and> stderr r' = stderr r \<and> disk r' = disk r
       \<and> (\<exists>ps. stdout r' = stdout r @ map Reading ps)"
proof (induction n arbitrary: st input rb ne r rule: less_induct)
  case (less n)
  show ?case
  proof (cases "n = 0")
    case True
    then show ?thesis by (simp add: read_loop_0 chunk_sizes_0 mismatch_count_def)
  next
    case False
    then have pos: "0 < n" by simp
    define m where "m = min n size_bytes"
    define r2 where "r2 = progress Reading sz (n - m) (sys (Fread m m) r)"
    define st' where "st' = advance (prng_next g) buffer_words st"
    define ne' where "ne' = ne + of_nat (mismatch_count input (stream_byte (prng_next g) st) m)"
    have m: "0 < m" "m \<le> n" using pos by (simp_all add: m_def size_bytes_def)
    have len: "m \<le> length input" using less.prems m by simp
    have step: "read_loop g sz st n input rb ne r
        = read_loop g sz st' (n - m) (drop m input) (take m input @ drop m rb) ne' r2"
      unfolding r2_def st'_def ne'_def by (rule read_loop_next [OF pos m_def len])
    have r2: "calls r2 = calls r @ [Fread m m]" "stderr r2 = stderr r" "disk r2 = disk r"
      by (simp_all add: r2_def progress_fields sys_def)
    obtain qs where qs: "stdout r2 = stdout r @ map Reading qs"
      using progress_stdout [of Reading sz "n - m" "sys (Fread m m) r"]
      by (auto simp: r2_def sys_def)
    have lt: "n - m < n" using m by simp
    have "n - m \<le> length (drop m input)" using less.prems by simp
    from less.IH [OF lt this, of st' "take m input @ drop m rb" ne' r2]
    obtain r' ps where r': "read_loop g sz st' (n - m) (drop m input) (take m input @ drop m rb) ne' r2
        = Inr (ne' + of_nat (mismatch_count (drop m input) (stream_byte (prng_next g) st') (n - m)), r')"
      "calls r' = calls r2 @ map (\<lambda>k. Fread k k) (chunk_sizes (n - m))"
      "stderr r' = stderr r2" "disk r' = disk r2" "stdout r' = stdout r2 @ map Reading ps"
      by auto
    have cnt: "ne' + of_nat (mismatch_count (drop m input) (stream_byte (prng_next g) st') (n - m))
        = ne + of_nat (mismatch_count input (stream_byte (prng_next g) st) n)"
      using mismatch_count_chunk [OF pos less.prems, of "prng_next g" st]
      by (simp add: ne'_def st'_def m_def [symmetric] add.assoc flip: of_nat_add)
    have "stdout r' = stdout r @ map Reading (qs @ ps)"
      by (simp add: r'(5) qs)
    moreover have "calls r' = calls r @ map (\<lambda>k. Fread k k) (chunk_sizes n)"
      using chunk_sizes_step [OF pos] by (simp add: r'(2) r2 m_def)
    ultimately show ?thesis
      using step r'(1,3,4) r2(2,3) cnt
      by (intro exI [of _ r'] conjI exI [of _ "qs @ ps"]) simp_all
  qed
qed

lemma read_loop_shape:
  "case read_loop g sz st n input rb ne r of
     Inl r' \<Rightarrow> stderr r' = stderr r @ [Failed_read] \<and> grows is_fread Reading r r'
   | Inr (e, r') \<Rightarrow> stderr r' = stderr r \<and> grows is_fread Reading r r'"
proof (induction n arbitrary: st input rb ne r rule: less_induct)
  case (less n)
  show ?case
  proof (cases "n = 0")
    case True
    then show ?thesis by (simp add: read_loop_0 grows_refl)
  next
    case False
    then have pos: "0 < n" by simp
    define m where "m = min n size_bytes"
    have m: "0 < m" "m \<le> n" using pos by (simp_all add: m_def size_bytes_def)
    show ?thesis
    proof (cases "length input < m")
      case True
      define r1 where "r1 = sys (Fread m (length input)) r"
      have r1: "calls r1 = calls r @ [Fread m (length input)]" "stderr r1 = stderr r"
        "stdout r1 = stdout r"
        by (simp_all add: r1_def sys_def)
      have g1: "grows is_fread Reading r r1"
        by (rule grows_call [OF r1(1) _ r1(3)]) (simp add: is_fread_def)
      have "read_loop g sz st n input rb ne r = Inl (cerr Failed_read r1)"
        unfolding r1_def by (rule read_loop_fail [OF pos m_def True])
      moreover have "grows is_fread Reading r1 (cerr Failed_read r1)"
        by (simp add: grows_def cerr_def)
      moreover have "stderr (cerr Failed_read r1) = stderr r @ [Failed_read]"
        by (simp add: cerr_def r1)
      ultimately show ?thesis using grows_trans [OF g1] by simp
    next
      case False
      then have len: "m \<le> length input" by simp
      define r1 where "r1 = sys (Fread m m) r"
      define r2 where "r2 = progress Reading sz (n - m) r1"
      have r1: "calls r1 = calls r @ [Fread m m]" "stderr r1 = stderr r" "stdout r1 = stdout r"
        by (simp_all add: r1_def sys_def)
      have g1: "grows is_fread Reading r r1"
        by (rule grows_call [OF r1(1) _ r1(3)]) (simp add: is_fread_def)
      have step: "read_loop g sz st n input rb ne r =
          read_loop g sz (advance (prng_next g) buffer_words st) (n - m) (drop m input)
            (take m input @ drop m rb)
            (ne + of_nat (mismatch_count input (stream_byte (prng_next g) st) m)) r2"
        unfolding r2_def r1_def by (rule read_loop_next [OF pos m_def len])
      have lt: "n - m < n" using m by simp
      have g2: "grows is_fread Reading r r2" "stderr r2 = stderr r"
        unfolding r2_def using grows_trans [OF g1 grows_progress] by (simp_all add: progress_fields r1)
      show ?thesis
        using less.IH [OF lt, where st = "advance (prng_next g) buffer_words st" and r = r2
            and input = "drop m input" and rb = "take m input @ drop m rb"
            and ne = "ne + of_nat (mismatch_count input (stream_byte (prng_next g) st) m)"]
          grows_trans [OF g2(1)]
        by (auto simp: step g2(2) split: sum.splits)
    qed
  qed
qed

section \<open>The whole program\<close>

lemma run_fields:
  "calls (sys c r) = calls r @ [c]" "stdout (sys c r) = stdout r"
  "stderr (sys c r) = stderr r" "disk (sys c r) = disk r"
  "calls (cout x r) = calls r" "stdout (cout x r) = stdout r @ [x]"
  "stderr (cout x r) = stderr r" "disk (cout x r) = disk r"
  "calls (cerr e r) = calls r" "stdout (cerr e r) = stdout r"
  "stderr (cerr e r) = stderr r @ [e]" "disk (cerr e r) = disk r"
  by (simp_all add: run_ops)

lemma barrier_Inr:
  "barrier_ok dev \<Longrightarrow> barrier dev r = Inr (r\<lparr>calls := calls r @ barrier_calls\<rparr>)"
  by (simp add: barrier_def barrier_ok_def barrier_calls_def run_ops)

lemma barrier_Inl:
  "\<not> barrier_ok dev \<Longrightarrow>
   \<exists>bs e. (bs, e) \<in> barrier_failures
     \<and> barrier dev r = Inl (r\<lparr>calls := calls r @ bs, stderr := stderr r @ [e]\<rparr>)"
  unfolding barrier_def barrier_ok_def barrier_failures_def run_ops Let_def
  by (cases "fflush_ok dev"; cases "fileno_ok dev"; cases "fsync_ok dev"; cases "fclose_ok dev";
      simp; blast)

lemma main_args_fail:
  "parse_args argv = (d, None) \<Longrightarrow> main g dev argv = (1, run0\<lparr>stderr := d\<rparr>)"
  by (simp add: main_def)

lemma main_open_write_fail:
  assumes "parse_args argv = (d, Some (seed, sz, path))" and "\<not> fopen_wb_ok dev"
  shows "main g dev argv
    = (1, cerr Failed_open_write (sys (Fopen path Wb False) (run0\<lparr>stderr := d\<rparr>)))"
  using assms by (simp add: main_def Let_def)

lemma main_write_fail:
  assumes "parse_args argv = (d, Some (seed, sz, path))" and "fopen_wb_ok dev"
    and "write_loop g dev (unat sz) (prng_seed g seed) (unat sz)
           ((sys (Fopen path Wb True) (run0\<lparr>stderr := d\<rparr>))\<lparr>disk := []\<rparr>) = Inl r'"
  shows "main g dev argv = (1, r')"
  using assms by (simp add: main_def Let_def)

lemma main_barrier_fail:
  assumes "parse_args argv = (d, Some (seed, sz, path))" and "fopen_wb_ok dev"
    and "write_loop g dev (unat sz) (prng_seed g seed) (unat sz)
           ((sys (Fopen path Wb True) (run0\<lparr>stderr := d\<rparr>))\<lparr>disk := []\<rparr>) = Inr r2"
    and "barrier dev r2 = Inl r'"
  shows "main g dev argv = (1, r')"
  using assms by (simp add: main_def Let_def)

lemma main_open_read_fail:
  assumes "parse_args argv = (d, Some (seed, sz, path))" and "fopen_wb_ok dev"
    and "write_loop g dev (unat sz) (prng_seed g seed) (unat sz)
           ((sys (Fopen path Wb True) (run0\<lparr>stderr := d\<rparr>))\<lparr>disk := []\<rparr>) = Inr r2"
    and "barrier dev r2 = Inr r3" and "\<not> fopen_rb_ok dev"
  shows "main g dev argv
    = (1, cerr Failed_open_read (sys (Fopen path Rb False) (cout (Wrote sz) r3)))"
  using assms by (simp add: main_def Let_def)

lemma main_read_fail:
  assumes "parse_args argv = (d, Some (seed, sz, path))" and "fopen_wb_ok dev"
    and "write_loop g dev (unat sz) (prng_seed g seed) (unat sz)
           ((sys (Fopen path Wb True) (run0\<lparr>stderr := d\<rparr>))\<lparr>disk := []\<rparr>) = Inr r2"
    and "barrier dev r2 = Inr r3" and "fopen_rb_ok dev"
    and "read_loop g (unat sz) (prng_seed g seed) (unat sz) (medium dev (disk r3))
           (replicate size_bytes 0) 0 (sys (Fopen path Rb True) (cout (Wrote sz) r3)) = Inl r'"
  shows "main g dev argv = (1, r')"
  using assms by (simp add: main_def Let_def run_fields)

lemma main_done:
  assumes "parse_args argv = (d, Some (seed, sz, path))" and "fopen_wb_ok dev"
    and "write_loop g dev (unat sz) (prng_seed g seed) (unat sz)
           ((sys (Fopen path Wb True) (run0\<lparr>stderr := d\<rparr>))\<lparr>disk := []\<rparr>) = Inr r2"
    and "barrier dev r2 = Inr r3" and "fopen_rb_ok dev"
    and "read_loop g (unat sz) (prng_seed g seed) (unat sz) (medium dev (disk r3))
           (replicate size_bytes 0) 0 (sys (Fopen path Rb True) (cout (Wrote sz) r3)) = Inr (e, r6)"
  shows "main g dev argv
    = (0, cout (Found e (percent_of (unat e) (unat sz))) (cout (Read_total sz) r6))"
  using assms by (simp add: main_def Let_def run_fields)

lemma main_shape:
  assumes run: "main g dev argv = (code, r)"
  shows "(\<exists>d. parse_args argv = (d, None) \<and> code = 1 \<and> r = run0\<lparr>stderr := d\<rparr>)
    \<or> (\<exists>d seed sz path. parse_args argv = (d, Some (seed, sz, path))
          \<and> outcome dev d sz path code r)"
proof -
  obtain d a where pa: "parse_args argv = (d, a)" by (cases "parse_args argv")
  show ?thesis
  proof (cases a)
    case None
    then show ?thesis using run pa main_args_fail [of argv d g dev] by simp
  next
    case (Some t)
    then obtain seed sz path where ps: "parse_args argv = (d, Some (seed, sz, path))"
      using pa by (cases t) auto
    define r0 where "r0 = (sys (Fopen path Wb True) (run0\<lparr>stderr := d\<rparr>))\<lparr>disk := []\<rparr>"
    have r0: "calls r0 = [Fopen path Wb True]" "stdout r0 = []" "stderr r0 = d"
      by (simp_all add: r0_def sys_def run0_def)
    have "outcome dev d sz path code r"
    proof (cases "fopen_wb_ok dev")
      case False
      have "main g dev argv
          = (1, cerr Failed_open_write (sys (Fopen path Wb False) (run0\<lparr>stderr := d\<rparr>)))"
        by (rule main_open_write_fail [OF ps False])
      then have "code = 1" "calls r = [Fopen path Wb False]" "stdout r = []"
        "stderr r = d @ [Failed_open_write]"
        using run by (auto simp: run_fields run0_def)
      then show ?thesis using False unfolding outcome_def by blast
    next
      case wb: True
      show ?thesis
      proof (cases "write_loop g dev (unat sz) (prng_seed g seed) (unat sz) r0")
        case (Inl r')
        then have "main g dev argv = (1, r')"
          unfolding r0_def by (rule main_write_fail [OF ps wb])
        then have c: "code = 1" "r = r'" using run by simp_all
        from write_loop_shape [where g = g and dev = dev and sz = "unat sz" and st = "prng_seed g seed"
            and n = "unat sz" and r = r0] Inl
        have "stderr r' = stderr r0 @ [Failed_write]" "grows is_fwrite Writing r0 r'"
          by simp_all
        then obtain ws ps where "calls r' = calls r0 @ ws" "\<forall>c\<in>set ws. is_fwrite c"
          "stdout r' = stdout r0 @ map Writing ps" "stderr r' = stderr r0 @ [Failed_write]"
          unfolding grows_def by blast
        then have "(\<forall>c\<in>set ws. is_fwrite c) \<and> code = 1
           \<and> calls r = Fopen path Wb True # ws \<and> stdout r = map Writing ps
           \<and> stderr r = d @ [Failed_write]"
          using c by (simp add: r0)
        then show ?thesis unfolding outcome_def by blast
      next
        case (Inr r2)
        from write_loop_shape [where g = g and dev = dev and sz = "unat sz" and st = "prng_seed g seed"
            and n = "unat sz" and r = r0] Inr
        have "stderr r2 = stderr r0" "grows is_fwrite Writing r0 r2"
          by simp_all
        then obtain ws ps where "calls r2 = calls r0 @ ws" and ws: "\<forall>c\<in>set ws. is_fwrite c"
          and "stdout r2 = stdout r0 @ map Writing ps" "stderr r2 = stderr r0"
          unfolding grows_def by blast
        then have r2: "calls r2 = Fopen path Wb True # ws" "stdout r2 = map Writing ps"
          "stderr r2 = d"
          by (simp_all add: r0)
        show ?thesis
        proof (cases "barrier_ok dev")
          case False
          then obtain bs x where bx: "(bs, x) \<in> barrier_failures"
            and b: "barrier dev r2 = Inl (r2\<lparr>calls := calls r2 @ bs, stderr := stderr r2 @ [x]\<rparr>)"
            using barrier_Inl [of dev r2] by blast
          have "main g dev argv = (1, r2\<lparr>calls := calls r2 @ bs, stderr := stderr r2 @ [x]\<rparr>)"
            using Inr b unfolding r0_def by (rule main_barrier_fail [OF ps wb])
          then have "(\<forall>c\<in>set ws. is_fwrite c) \<and> code = 1 \<and> \<not> barrier_ok dev
             \<and> (bs, x) \<in> barrier_failures
             \<and> calls r = Fopen path Wb True # ws @ bs \<and> stdout r = map Writing ps
             \<and> stderr r = d @ [x]"
            using run ws bx False by (auto simp: r2)
          then show ?thesis unfolding outcome_def by blast
        next
          case bar: True
          define r3 where "r3 = r2\<lparr>calls := calls r2 @ barrier_calls\<rparr>"
          have b: "barrier dev r2 = Inr r3"
            unfolding r3_def by (rule barrier_Inr [OF bar])
          have r3: "calls r3 = Fopen path Wb True # ws @ barrier_calls" "stdout r3 = map Writing ps"
            "stderr r3 = d"
            by (simp_all add: r3_def r2)
          show ?thesis
          proof (cases "fopen_rb_ok dev")
            case False
            have "main g dev argv
                = (1, cerr Failed_open_read (sys (Fopen path Rb False) (cout (Wrote sz) r3)))"
              using Inr b False unfolding r0_def by (rule main_open_read_fail [OF ps wb])
            then have "(\<forall>c\<in>set ws. is_fwrite c) \<and> code = 1 \<and> barrier_ok dev
               \<and> calls r = Fopen path Wb True # ws @ barrier_calls @ [Fopen path Rb False]
               \<and> stdout r = map Writing ps @ [Wrote sz]
               \<and> stderr r = d @ [Failed_open_read]"
              using run ws bar by (auto simp: run_fields r3)
            then show ?thesis unfolding outcome_def by blast
          next
            case rb: True
            define r5 where "r5 = sys (Fopen path Rb True) (cout (Wrote sz) r3)"
            have r5: "calls r5 = Fopen path Wb True # ws @ barrier_calls @ [Fopen path Rb True]"
              "stdout r5 = map Writing ps @ [Wrote sz]" "stderr r5 = d"
              by (simp_all add: r5_def run_fields r3)
            show ?thesis
            proof (cases "read_loop g (unat sz) (prng_seed g seed) (unat sz) (medium dev (disk r3))
                (replicate size_bytes 0) 0 r5")
              case (Inl r')
              have "main g dev argv = (1, r')"
                using Inr b rb Inl unfolding r0_def r5_def by (rule main_read_fail [OF ps wb])
              then have c: "code = 1" "r = r'" using run by simp_all
              from read_loop_shape [where g = g and sz = "unat sz" and st = "prng_seed g seed"
                  and n = "unat sz" and input = "medium dev (disk r3)"
                  and rb = "replicate size_bytes 0" and ne = 0 and r = r5] Inl
              have "stderr r' = stderr r5 @ [Failed_read]" "grows is_fread Reading r5 r'"
                by simp_all
              then obtain rs qs where "calls r' = calls r5 @ rs" "\<forall>c\<in>set rs. is_fread c"
                "stdout r' = stdout r5 @ map Reading qs" "stderr r' = stderr r5 @ [Failed_read]"
                unfolding grows_def by blast
              then have "(\<forall>c\<in>set ws. is_fwrite c) \<and> (\<forall>c\<in>set rs. is_fread c) \<and> code = 1
                 \<and> barrier_ok dev
                 \<and> calls r = Fopen path Wb True # ws @ barrier_calls @ Fopen path Rb True # rs
                 \<and> stdout r = map Writing ps @ Wrote sz # map Reading qs
                 \<and> stderr r = d @ [Failed_read]"
                using c ws bar by (simp add: r5)
              then show ?thesis unfolding outcome_def by blast
            next
              case (Inr t)
              obtain e r6 where t: "t = (e, r6)" by (cases t)
              have "main g dev argv
                  = (0, cout (Found e (percent_of (unat e) (unat sz))) (cout (Read_total sz) r6))"
                using \<open>write_loop g dev (unat sz) (prng_seed g seed) (unat sz) r0 = Inr r2\<close>
                  b rb Inr [unfolded t] unfolding r0_def r5_def by (rule main_done [OF ps wb])
              then have c: "code = 0"
                "r = cout (Found e (percent_of (unat e) (unat sz))) (cout (Read_total sz) r6)"
                using run by simp_all
              from read_loop_shape [where g = g and sz = "unat sz" and st = "prng_seed g seed"
                  and n = "unat sz" and input = "medium dev (disk r3)"
                  and rb = "replicate size_bytes 0" and ne = 0 and r = r5] Inr t
              have "stderr r6 = stderr r5" "grows is_fread Reading r5 r6"
                by simp_all
              then obtain rs qs where "calls r6 = calls r5 @ rs" "\<forall>c\<in>set rs. is_fread c"
                "stdout r6 = stdout r5 @ map Reading qs" "stderr r6 = stderr r5"
                unfolding grows_def by blast
              then have "(\<forall>c\<in>set ws. is_fwrite c) \<and> (\<forall>c\<in>set rs. is_fread c) \<and> code = 0
                 \<and> barrier_ok dev
                 \<and> calls r = Fopen path Wb True # ws @ barrier_calls @ Fopen path Rb True # rs
                 \<and> stdout r = map Writing ps @ Wrote sz # map Reading qs
                      @ [Read_total sz, Found e (percent_of (unat e) (unat sz))]
                 \<and> stderr r = d"
                using c ws bar by (simp add: r5 run_fields)
              then show ?thesis unfolding outcome_def by blast
            qed
          qed
        qed
      qed
    qed
    then show ?thesis using ps by blast
  qed
qed

section \<open>A run on which every call succeeds\<close>

lemma mismatch_count_le: "mismatch_count file reference n \<le> n"
  unfolding mismatch_count_def using length_filter_le [of _ "[0..<n]"] by simp

lemma mismatch_count_card:
  "mismatch_count file reference n = card {i. i < n \<and> file ! i \<noteq> reference i}"
proof -
  have "{i. i < length [0..<n] \<and> file ! ([0..<n] ! i) \<noteq> reference ([0..<n] ! i)}
      = {i. i < n \<and> file ! i \<noteq> reference i}"
    by auto
  then show ?thesis
    unfolding mismatch_count_def length_filter_conv_card by simp
qed

lemma unat_counter:
  "unat (of_nat (mismatch_count file reference (unat (sz :: u64))) :: u64)
     = mismatch_count file reference (unat sz)"
proof -
  have "mismatch_count file reference (unat sz) \<le> unat sz" by (rule mismatch_count_le)
  moreover have "unat sz < 2 ^ 64" using unsigned_less [of sz] by simp
  ultimately have "mismatch_count file reference (unat sz) < 2 ^ LENGTH(64)" by simp
  then show ?thesis by (simp only: unat_of_nat mod_less)
qed

lemma mismatch_count_same:
  "mismatch_count (stream nxt st n) (stream_byte nxt st) n = 0"
  by (simp add: mismatch_count_def nth_stream)

lemma mismatch_count_flip:
  assumes "k < n" and "b \<noteq> stream_byte nxt st k"
  shows "mismatch_count ((stream nxt st n)[k := b]) (stream_byte nxt st) n = 1"
proof -
  have "{i. i < n \<and> (stream nxt st n)[k := b] ! i \<noteq> stream_byte nxt st i} = {k}"
    using assms by (auto simp: nth_list_update nth_stream length_stream)
  then show ?thesis by (simp add: mismatch_count_card)
qed

lemma main_sound:
  assumes ps: "parse_args argv = (d, Some (seed, sz, path))"
    and ok: "all_succeed dev" and room: "unat sz \<le> room dev"
    and len: "unat sz \<le> length (medium dev (stream (prng_next g) (prng_seed g seed) (unat sz)))"
  shows "\<exists>r ps qs e. main g dev argv = (0, r)
      \<and> calls r = Fopen path Wb True # map (\<lambda>k. Fwrite k k) (chunk_sizes (unat sz))
           @ barrier_calls @ Fopen path Rb True # map (\<lambda>k. Fread k k) (chunk_sizes (unat sz))
      \<and> stdout r = map Writing ps @ Wrote sz # map Reading qs
           @ [Read_total sz, Found e (percent_of (unat e) (unat sz))]
      \<and> stderr r = d
      \<and> disk r = stream (prng_next g) (prng_seed g seed) (unat sz)
      \<and> unat e = mismatch_count (medium dev (stream (prng_next g) (prng_seed g seed) (unat sz)))
           (stream_byte (prng_next g) (prng_seed g seed)) (unat sz)"
proof -
  define N where "N = unat sz"
  define st where "st = prng_seed g seed"
  define F where "F = stream (prng_next g) st N"
  define r0 where "r0 = (sys (Fopen path Wb True) (run0\<lparr>stderr := d\<rparr>))\<lparr>disk := []\<rparr>"
  have r0: "calls r0 = [Fopen path Wb True]" "stdout r0 = []" "stderr r0 = d" "disk r0 = []"
    by (simp_all add: r0_def sys_def run0_def)
  have dev: "fopen_wb_ok dev" "barrier_ok dev" "fopen_rb_ok dev"
    using ok by (simp_all add: all_succeed_def)
  have "length (disk r0) + N \<le> room dev" using room by (simp add: r0 N_def)
  from write_loop_sound [OF this, of g N st]
  obtain r2 ps where w: "write_loop g dev N st N r0 = Inr r2"
    and r2: "disk r2 = F" "calls r2 = Fopen path Wb True # map (\<lambda>k. Fwrite k k) (chunk_sizes N)"
      "stderr r2 = d" "stdout r2 = map Writing ps"
    by (auto simp: r0 F_def)
  define r3 where "r3 = r2\<lparr>calls := calls r2 @ barrier_calls\<rparr>"
  have b: "barrier dev r2 = Inr r3"
    unfolding r3_def by (rule barrier_Inr [OF dev(2)])
  define r5 where "r5 = sys (Fopen path Rb True) (cout (Wrote sz) r3)"
  have r5: "calls r5 = Fopen path Wb True # map (\<lambda>k. Fwrite k k) (chunk_sizes N)
        @ barrier_calls @ [Fopen path Rb True]"
    "stdout r5 = map Writing ps @ [Wrote sz]" "stderr r5 = d" "disk r5 = F" "disk r3 = F"
    by (simp_all add: r5_def r3_def run_fields r2)
  define e :: u64 where "e = of_nat (mismatch_count (medium dev F) (stream_byte (prng_next g) st) N)"
  have "N \<le> length (medium dev F)" using len by (simp add: N_def F_def st_def)
  from read_loop_sound [OF this, of g N st "replicate size_bytes 0" 0 r5]
  obtain r6 qs where rd: "read_loop g N st N (medium dev F) (replicate size_bytes 0) 0 r5 = Inr (e, r6)"
    and r6: "calls r6 = calls r5 @ map (\<lambda>k. Fread k k) (chunk_sizes N)" "stderr r6 = d"
      "disk r6 = F" "stdout r6 = stdout r5 @ map Reading qs"
    by (auto simp: e_def r5)
  define r where "r = cout (Found e (percent_of (unat e) (unat sz))) (cout (Read_total sz) r6)"
  have "main g dev argv = (0, r)"
    unfolding r_def
    using w b dev(3) rd unfolding r0_def N_def st_def r5(5) [symmetric] r5_def
    by (rule main_done [OF ps dev(1)])
  moreover have "calls r = Fopen path Wb True # map (\<lambda>k. Fwrite k k) (chunk_sizes (unat sz))
           @ barrier_calls @ Fopen path Rb True # map (\<lambda>k. Fread k k) (chunk_sizes (unat sz))"
    "stdout r = map Writing ps @ Wrote sz # map Reading qs
           @ [Read_total sz, Found e (percent_of (unat e) (unat sz))]"
    "stderr r = d" "disk r = stream (prng_next g) (prng_seed g seed) (unat sz)"
    by (simp_all add: r_def run_fields r6 r5 N_def F_def st_def)
  moreover have "unat e = mismatch_count (medium dev (stream (prng_next g) (prng_seed g seed) (unat sz)))
           (stream_byte (prng_next g) (prng_seed g seed)) (unat sz)"
    unfolding e_def N_def F_def st_def by (rule unat_counter)
  ultimately show ?thesis by blast
qed

lemma sound_device_succeeds: "all_succeed sound_device" "all_succeed flipping_device"
  by (simp_all add: all_succeed_def barrier_ok_def sound_device_def flipping_device_def)

lemma main_zero:
  assumes "parse_args argv = (d, Some (seed, 0, path))" and "all_succeed dev"
  shows "main g dev argv =
     (0, \<lparr>calls = [Fopen path Wb True, Fflush True, Fileno True, Fsync True, Fclose True,
                   Fopen path Rb True],
          stdout = [Wrote 0, Read_total 0, Found 0 NaN], stderr = d, disk = []\<rparr>)"
proof -
  have dev: "fopen_wb_ok dev" "barrier_ok dev" "fopen_rb_ok dev"
    using assms(2) by (simp_all add: all_succeed_def)
  show ?thesis
    using assms(1) dev
    by (simp add: main_def Let_def write_loop_0 read_loop_0 barrier_Inr barrier_calls_def
        run_ops run0_def percent_of_def)
qed

lemmas args_defs = parse_args_def parse_size_def from_chars_def is_digit_def digit_val_def
  dec_value_def deref_def

lemma zero_args: "parse_args [''wrt'', ''0'', ''f''] = ([], Some (default_seed, 0, ''f''))"
  by (simp add: args_defs)

lemma main_zero_failing_sync:
  "main lcg failing_sync_device [''wrt'', ''0'', ''f''] =
     (1, \<lparr>calls = [Fopen ''f'' Wb True, Fflush True, Fileno True, Fsync False],
          stdout = [], stderr = [Failed_sync], disk = []\<rparr>)"
  by (simp add: main_def zero_args Let_def write_loop_0 barrier_def run_ops run0_def
      failing_sync_device_def sound_device_def)

text \<open>
  C1. Round trip. For every engine, seed and size: when every call succeeds, the
  destination has room for the size, and the medium gives back the written bytes
  unchanged, the program returns 0, the file holds exactly the first \<open>size\<close> bytes of
  the stream of the seed, and the last line reports 0 mismatches. The stream is the one
  defined without a buffer, so the generator seeded again reproduces it byte for byte
  however the size relates to the 8192 bytes of the buffer.
\<close>
theorem roundtrip_no_mismatch:
  assumes "parse_args argv = (d, Some (seed, sz, path))"
    and "all_succeed dev" and "unat sz \<le> room dev"
    and "medium dev (stream (prng_next g) (prng_seed g seed) (unat sz))
          = stream (prng_next g) (prng_seed g seed) (unat sz)"
  shows "\<exists>r ps qs. main g dev argv = (0, r)
      \<and> disk r = stream (prng_next g) (prng_seed g seed) (unat sz)
      \<and> stdout r = map Writing ps @ Wrote sz # map Reading qs
           @ [Read_total sz, Found 0 (percent_of 0 (unat sz))]
      \<and> stderr r = d"
proof -
  have len: "unat sz \<le> length (medium dev (stream (prng_next g) (prng_seed g seed) (unat sz)))"
    by (simp add: assms(4) length_stream)
  from main_sound [OF assms(1-3) len]
  obtain r ps qs e where r: "main g dev argv = (0, r)"
    "stdout r = map Writing ps @ Wrote sz # map Reading qs
           @ [Read_total sz, Found e (percent_of (unat e) (unat sz))]"
    "stderr r = d" "disk r = stream (prng_next g) (prng_seed g seed) (unat sz)"
    "unat e = mismatch_count (medium dev (stream (prng_next g) (prng_seed g seed) (unat sz)))
           (stream_byte (prng_next g) (prng_seed g seed)) (unat sz)"
    by blast
  have "unat e = 0"
    by (simp only: r(5) assms(4) mismatch_count_same)
  then have "e = 0" by (simp add: unat_eq_0)
  then show ?thesis using r by auto
qed

text \<open>The statement for seed 42 and size 10000 on the sound device.\<close>
theorem roundtrip_no_mismatch_witness:
  "\<exists>r ps qs. main lcg sound_device [''wrt'', ''42'', ''10000'', ''f''] = (0, r)
      \<and> disk r = stream (prng_next lcg) (prng_seed lcg 42) 10000
      \<and> stdout r = map Writing ps @ Wrote 10000 # map Reading qs
           @ [Read_total 10000, Found 0 (Finite 0)]
      \<and> stderr r = []"
proof -
  have a: "parse_args [''wrt'', ''42'', ''10000'', ''f''] = ([], Some (42, 10000, ''f''))"
    by (simp add: args_defs)
  have b: "unat (10000 :: u64) \<le> room sound_device"
    by (simp add: sound_device_def)
  have c: "medium sound_device (stream (prng_next lcg) (prng_seed lcg 42) (unat (10000 :: u64)))
      = stream (prng_next lcg) (prng_seed lcg 42) (unat (10000 :: u64))"
    by (simp add: sound_device_def)
  show ?thesis
    using roundtrip_no_mismatch [OF a sound_device_succeeds(1) b c]
    by (simp add: percent_of_def)
qed

text \<open>
  C7. Exhaustive verification. When every call succeeds and the medium returns at
  least \<open>size\<close> bytes, the counter reported at the end is the number of positions
  below \<open>size\<close> at which the byte read differs from the byte of the regenerated
  stream: the comparison goes on after a mismatch. In particular, when the medium
  returns the written file with the byte at one position \<open>k\<close> replaced by a different
  value, the counter is at least 1.
\<close>
theorem exhaustive_verification:
  assumes "parse_args argv = (d, Some (seed, sz, path))"
    and "all_succeed dev" and "unat sz \<le> room dev"
    and "unat sz \<le> length (medium dev (stream (prng_next g) (prng_seed g seed) (unat sz)))"
  shows "\<exists>r ps qs e. main g dev argv = (0, r)
      \<and> stdout r = map Writing ps @ Wrote sz # map Reading qs
           @ [Read_total sz, Found e (percent_of (unat e) (unat sz))]
      \<and> unat e = card {i. i < unat sz
           \<and> medium dev (stream (prng_next g) (prng_seed g seed) (unat sz)) ! i
               \<noteq> stream_byte (prng_next g) (prng_seed g seed) i}
      \<and> (k < unat sz \<and> b \<noteq> stream (prng_next g) (prng_seed g seed) (unat sz) ! k
           \<and> medium dev (stream (prng_next g) (prng_seed g seed) (unat sz))
               = (stream (prng_next g) (prng_seed g seed) (unat sz))[k := b]
          \<longrightarrow> 1 \<le> unat e)"
proof -
  from main_sound [OF assms]
  obtain r ps qs e where r: "main g dev argv = (0, r)"
    "stdout r = map Writing ps @ Wrote sz # map Reading qs
           @ [Read_total sz, Found e (percent_of (unat e) (unat sz))]"
    "unat e = mismatch_count (medium dev (stream (prng_next g) (prng_seed g seed) (unat sz)))
           (stream_byte (prng_next g) (prng_seed g seed)) (unat sz)"
    by blast
  have "1 \<le> unat e"
    if "k < unat sz" "b \<noteq> stream (prng_next g) (prng_seed g seed) (unat sz) ! k"
      "medium dev (stream (prng_next g) (prng_seed g seed) (unat sz))
               = (stream (prng_next g) (prng_seed g seed) (unat sz))[k := b]"
  proof -
    have "b \<noteq> stream_byte (prng_next g) (prng_seed g seed) k"
      using that(1,2) by (simp add: nth_stream)
    then show ?thesis
      using mismatch_count_flip [OF that(1), of b "prng_next g" "prng_seed g seed"]
      by (simp add: r(3) that(3))
  qed
  then show ?thesis
    using r by (auto simp: mismatch_count_card)
qed

text \<open>The statement for size 3 on the device that changes the first byte.\<close>
theorem exhaustive_verification_witness:
  "\<exists>r ps qs e. main lcg flipping_device [''wrt'', ''3'', ''f''] = (0, r)
      \<and> stdout r = map Writing ps @ Wrote 3 # map Reading qs
           @ [Read_total 3, Found e (percent_of (unat e) 3)]
      \<and> 1 \<le> unat e"
proof -
  define F where "F = stream (prng_next lcg) (prng_seed lcg default_seed) (unat (3 :: u64))"
  have a: "parse_args [''wrt'', ''3'', ''f''] = ([], Some (default_seed, 3, ''f''))"
    by (simp add: args_defs)
  have b: "unat (3 :: u64) \<le> room flipping_device"
    by (simp add: flipping_device_def sound_device_def)
  have m: "medium flipping_device F = F[0 := F ! 0 + 1]"
    by (simp add: flipping_device_def)
  have c: "unat (3 :: u64) \<le> length (medium flipping_device F)"
    by (simp add: m) (simp add: F_def length_stream)
  have k: "0 < unat (3 :: u64)" "F ! 0 + 1 \<noteq> F ! 0"
    by simp_all
  show ?thesis
    using exhaustive_verification [OF a sound_device_succeeds(2) b c [unfolded F_def],
        of 0 "F ! 0 + 1"] k m
    unfolding F_def by auto
qed

text \<open>
  C8. A size that is no multiple of the 8192 bytes of the buffer. When every call
  succeeds, the write phase asks for full buffers and then, last, for the remaining
  \<open>size mod 8192\<close> bytes, each request being served in full; the requests add up to
  the size and the file has exactly that length. The read phase makes the same requests,
  and the counter it reports is the count of mismatches over the positions below the
  size and no others.
\<close>
theorem partial_final_chunk:
  assumes "parse_args argv = (d, Some (seed, sz, path))"
    and "all_succeed dev" and "unat sz \<le> room dev"
    and "unat sz \<le> length (medium dev (stream (prng_next g) (prng_seed g seed) (unat sz)))"
    and "unat sz mod size_bytes \<noteq> 0"
  shows "\<exists>r e. main g dev argv = (0, r)
      \<and> calls r = Fopen path Wb True
           # map (\<lambda>k. Fwrite k k) (replicate (unat sz div size_bytes) size_bytes @ [unat sz mod size_bytes])
           @ [Fflush True, Fileno True, Fsync True, Fclose True, Fopen path Rb True]
           @ map (\<lambda>k. Fread k k) (replicate (unat sz div size_bytes) size_bytes @ [unat sz mod size_bytes])
      \<and> unat sz mod size_bytes < size_bytes
      \<and> sum_list (replicate (unat sz div size_bytes) size_bytes @ [unat sz mod size_bytes]) = unat sz
      \<and> length (disk r) = unat sz
      \<and> Wrote sz \<in> set (stdout r) \<and> Read_total sz \<in> set (stdout r)
      \<and> Found e (percent_of (unat e) (unat sz)) \<in> set (stdout r)
      \<and> unat e = mismatch_count (medium dev (stream (prng_next g) (prng_seed g seed) (unat sz)))
           (stream_byte (prng_next g) (prng_seed g seed)) (unat sz)"
proof -
  from main_sound [OF assms(1-4)]
  obtain r ps qs e where r: "main g dev argv = (0, r)"
    "calls r = Fopen path Wb True # map (\<lambda>k. Fwrite k k) (chunk_sizes (unat sz))
           @ barrier_calls @ Fopen path Rb True # map (\<lambda>k. Fread k k) (chunk_sizes (unat sz))"
    "stdout r = map Writing ps @ Wrote sz # map Reading qs
           @ [Read_total sz, Found e (percent_of (unat e) (unat sz))]"
    "disk r = stream (prng_next g) (prng_seed g seed) (unat sz)"
    "unat e = mismatch_count (medium dev (stream (prng_next g) (prng_seed g seed) (unat sz)))
           (stream_byte (prng_next g) (prng_seed g seed)) (unat sz)"
    by blast
  have c: "chunk_sizes (unat sz) = replicate (unat sz div size_bytes) size_bytes @ [unat sz mod size_bytes]"
    using assms(5) by (simp add: chunk_sizes_def)
  have s: "sum_list (replicate (unat sz div size_bytes) size_bytes @ [unat sz mod size_bytes]) = unat sz"
    by (simp add: sum_list_replicate)
  have l: "unat sz mod size_bytes < size_bytes"
    by (simp add: size_bytes_def)
  show ?thesis
    using r(1,5) s l
    by (intro exI [of _ r] exI [of _ e]) (simp add: r(2,3,4) c barrier_calls_def length_stream)
qed

text \<open>The statement for size 10000: requests of 8192 and 1808 bytes in both phases.\<close>
theorem partial_final_chunk_witness:
  "\<exists>r e. main lcg sound_device [''wrt'', ''10000'', ''f''] = (0, r)
      \<and> calls r = [Fopen ''f'' Wb True, Fwrite 8192 8192, Fwrite 1808 1808,
           Fflush True, Fileno True, Fsync True, Fclose True, Fopen ''f'' Rb True,
           Fread 8192 8192, Fread 1808 1808]
      \<and> length (disk r) = 10000
      \<and> Found e (percent_of (unat e) 10000) \<in> set (stdout r)"
proof -
  have a: "parse_args [''wrt'', ''10000'', ''f''] = ([], Some (default_seed, 10000, ''f''))"
    by (simp add: args_defs)
  have b: "unat (10000 :: u64) \<le> room sound_device"
    by (simp add: sound_device_def)
  have c: "unat (10000 :: u64)
      \<le> length (medium sound_device (stream (prng_next lcg) (prng_seed lcg default_seed) (unat (10000 :: u64))))"
    by (simp add: sound_device_def length_stream)
  have e: "unat (10000 :: u64) mod size_bytes \<noteq> 0"
    by (simp add: size_bytes_def)
  have v: "unat (10000 :: u64) div size_bytes = 1" "unat (10000 :: u64) mod size_bytes = 1808"
    "size_bytes = 8192"
    by (simp_all add: size_bytes_def)
  show ?thesis
    using partial_final_chunk [OF a sound_device_succeeds(1) b c e]
    unfolding v by auto
qed

section \<open>Exit status and the order of the calls\<close>

lemma parse_args_None:
  "parse_args argv = (d, None) \<Longrightarrow>
     d \<noteq> [] \<and> (last d = Usage \<or> (\<exists>a. last d = Failed_parse_size a))"
  unfolding parse_args_def
  by (auto simp: Let_def split: list.splits option.splits prod.splits if_splits)

lemma barrier_failures_diag:
  "(bs, x) \<in> barrier_failures \<Longrightarrow>
     x \<in> {Failed_flush, Failed_fileno, Failed_sync, Failed_close}
     \<and> (\<forall>c\<in>set bs. \<not> is_fread c \<and> (\<forall>q m b. c \<noteq> Fopen q m b))"
  by (auto simp: barrier_failures_def is_fread_def)

lemma fwrite_not_other:
  "is_fwrite c \<Longrightarrow> \<not> is_fread c \<and> (\<forall>q m b. c \<noteq> Fopen q m b) \<and> (\<forall>b. c \<noteq> Fflush b)
     \<and> (\<forall>b. c \<noteq> Fsync b) \<and> (\<forall>b. c \<noteq> Fclose b) \<and> (\<forall>b. c \<noteq> Fileno b)"
  by (cases c) (simp_all add: is_fwrite_def is_fread_def)

text \<open>
  C5. The exit status is 0 or 1. A run that completes both phases, that is, one that
  prints the line with the mismatch count, returns 0 whatever the count is, and only
  such a run does. A run that returns 1 has written a diagnostic last that is not the
  one of the seed: a size that does not parse, the usage text, or a failed call on
  the file.
\<close>
theorem exit_status:
  assumes "main g dev argv = (code, r)"
  shows "(code = 0 \<or> code = 1)
    \<and> ((\<exists>e p. Found e p \<in> set (stdout r)) \<longrightarrow> code = 0)
    \<and> (code = 0 \<longrightarrow> (\<exists>e p. Found e p \<in> set (stdout r)))
    \<and> (code \<noteq> 0 \<longrightarrow> stderr r \<noteq> [] \<and> (\<forall>s. last (stderr r) \<noteq> Failed_parse_seed s))"
proof -
  from main_shape [OF assms]
  consider (args) d where "parse_args argv = (d, None)" "code = 1" "r = run0\<lparr>stderr := d\<rparr>"
    | (run) d sz path where "outcome dev d sz path code r"
    by blast
  then show ?thesis
  proof cases
    case args
    then show ?thesis
      using parse_args_None [OF args(1)] by (auto simp: run0_def)
  next
    case run
    then show ?thesis
      unfolding outcome_def
      by (elim disjE exE conjE) (auto dest: barrier_failures_diag)
  qed
qed

text \<open>
  The statement for a run of size 3 on the device that changes the first byte, which
  completes with one mismatch and returns 0, and for a run on which \<^verbatim>\<open>fsync\<close>
  fails.
\<close>
theorem exit_status_witness:
  "fst (main lcg flipping_device [''wrt'', ''3'', ''f'']) = 0
   \<and> (\<exists>e p. Found e p \<in> set (stdout (snd (main lcg flipping_device [''wrt'', ''3'', ''f''])))
         \<and> unat e = 1)
   \<and> fst (main lcg failing_sync_device [''wrt'', ''0'', ''f'']) = 1
   \<and> stderr (snd (main lcg failing_sync_device [''wrt'', ''0'', ''f''])) \<noteq> []"
proof -
  define F where "F = stream (prng_next lcg) (prng_seed lcg default_seed) (unat (3 :: u64))"
  have a: "parse_args [''wrt'', ''3'', ''f''] = ([], Some (default_seed, 3, ''f''))"
    by (simp add: args_defs)
  have b: "unat (3 :: u64) \<le> room flipping_device"
    by (simp add: flipping_device_def sound_device_def)
  have m: "medium flipping_device F = F[0 := F ! 0 + 1]"
    by (simp add: flipping_device_def)
  have c: "unat (3 :: u64) \<le> length (medium flipping_device F)"
    by (simp add: m) (simp add: F_def length_stream)
  have ne: "F ! 0 + 1 \<noteq> stream_byte (prng_next lcg) (prng_seed lcg default_seed) 0"
    by (simp add: F_def nth_stream)
  have "mismatch_count (F[0 := F ! 0 + 1])
      (stream_byte (prng_next lcg) (prng_seed lcg default_seed)) (unat (3 :: u64)) = 1"
    using mismatch_count_flip [of 0 "unat (3 :: u64)" "F ! 0 + 1" "prng_next lcg"
        "prng_seed lcg default_seed"] ne
    by (simp add: F_def)
  then have "mismatch_count (medium flipping_device F)
      (stream_byte (prng_next lcg) (prng_seed lcg default_seed)) (unat (3 :: u64)) = 1"
    by (simp only: m)
  with main_sound [OF a sound_device_succeeds(2) b c [unfolded F_def]]
  obtain r ps qs e where r: "main lcg flipping_device [''wrt'', ''3'', ''f''] = (0, r)"
    "stdout r = map Writing ps @ Wrote 3 # map Reading qs
           @ [Read_total 3, Found e (percent_of (unat e) (unat (3 :: u64)))]"
    "unat e = 1"
    unfolding F_def by auto
  have found: "\<exists>e p. Found e p \<in> set (stdout (snd (main lcg flipping_device [''wrt'', ''3'', ''f''])))
         \<and> unat e = 1"
    using r by auto
  have p1: "main lcg flipping_device [''wrt'', ''3'', ''f'']
      = (fst (main lcg flipping_device [''wrt'', ''3'', ''f'']),
         snd (main lcg flipping_device [''wrt'', ''3'', ''f'']))"
    by simp
  have p2: "main lcg failing_sync_device [''wrt'', ''0'', ''f'']
      = (fst (main lcg failing_sync_device [''wrt'', ''0'', ''f'']),
         snd (main lcg failing_sync_device [''wrt'', ''0'', ''f'']))"
    by simp
  have n: "fst (main lcg failing_sync_device [''wrt'', ''0'', ''f'']) \<noteq> 0"
    by (simp add: main_zero_failing_sync)
  show ?thesis
    using exit_status [OF p1] exit_status [OF p2] found n by blast
qed

lemma gated_early:
  assumes "code = 1" and "\<forall>c\<in>set (calls r). \<not> is_fread c \<and> (\<forall>q b. c \<noteq> Fopen q Rb b)"
  shows "gated dev code r p ok"
  unfolding gated_def using assms by blast

lemma gated_reopen:
  assumes ws: "\<forall>c\<in>set ws. is_fwrite c" and rs: "\<forall>c\<in>set rs. is_fread c"
    and bar: "barrier_ok dev"
    and c: "calls r = Fopen path Wb True # ws @ barrier_calls @ Fopen path Rb b # rs"
  shows "gated dev code r p ok"
proof -
  have w0: "\<not> is_fread c \<and> (\<forall>q m b. c \<noteq> Fopen q m b) \<and> (\<forall>b. c \<noteq> Fflush b)
      \<and> (\<forall>b. c \<noteq> Fsync b) \<and> (\<forall>b. c \<noteq> Fclose b) \<and> (\<forall>b. c \<noteq> Fileno b)"
    if "c \<in> set ws" for c
  proof -
    have "is_fwrite c" using ws that by blast
    then show ?thesis by (rule fwrite_not_other)
  qed
  have w: "Fopen q Rb x \<notin> set ws" "Fflush x \<notin> set ws" "Fsync x \<notin> set ws" "Fclose x \<notin> set ws"
    for q x
    using w0 [of "Fopen q Rb x"] w0 [of "Fflush x"] w0 [of "Fsync x"] w0 [of "Fclose x"]
    by blast+
  have f0: "is_fread c" if "c \<in> set rs" for c
    using rs that by blast
  have f: "Fopen q Rb x \<notin> set rs" "Fflush x \<notin> set rs" "Fsync x \<notin> set rs" "Fclose x \<notin> set rs"
    for q x
    using f0 [of "Fopen q Rb x"] f0 [of "Fflush x"] f0 [of "Fsync x"] f0 [of "Fclose x"]
    by (auto simp: is_fread_def)
  have 1: "p = path \<and> ok = b" if "Fopen p Rb ok \<in> set (calls r)"
    using that w f by (auto simp: c barrier_calls_def)
  have 2: "calls r = Fopen path Wb True # ws
        @ [Fflush True, Fileno True, Fsync True, Fclose True, Fopen path Rb b] @ rs"
    by (simp add: c barrier_calls_def)
  have 3: "Fflush False \<notin> set (calls r)" "Fsync False \<notin> set (calls r)"
    "Fclose False \<notin> set (calls r)"
    using w f by (auto simp: c barrier_calls_def)
  have 4: "fflush_ok dev \<and> fsync_ok dev \<and> fclose_ok dev"
    using bar by (simp add: barrier_ok_def)
  have "\<exists>ws rs. calls r = Fopen p Wb True # ws
                 @ [Fflush True, Fileno True, Fsync True, Fclose True, Fopen p Rb ok] @ rs
               \<and> (\<forall>c\<in>set ws. is_fwrite c) \<and> (\<forall>c\<in>set rs. is_fread c)"
    if "Fopen p Rb ok \<in> set (calls r)"
    using 1 [OF that] 2 ws rs by blast
  then show ?thesis
    unfolding gated_def using 3 4 by blast
qed

lemma early_calls:
  assumes "\<forall>c\<in>set ws. is_fwrite c"
    and "\<forall>c\<in>set bs. \<not> is_fread c \<and> (\<forall>q m b. c \<noteq> Fopen q m b)"
  shows "\<forall>c\<in>set (Fopen path Wb b0 # ws @ bs). \<not> is_fread c \<and> (\<forall>q b. c \<noteq> Fopen q Rb b)"
proof
  fix c assume "c \<in> set (Fopen path Wb b0 # ws @ bs)"
  then consider "c = Fopen path Wb b0" | "c \<in> set ws" | "c \<in> set bs" by auto
  then show "\<not> is_fread c \<and> (\<forall>q b. c \<noteq> Fopen q Rb b)"
  proof cases
    case 1
    then show ?thesis by (simp add: is_fread_def)
  next
    case 2
    then have "is_fwrite c" using assms(1) by blast
    then show ?thesis using fwrite_not_other [of c] by blast
  next
    case 3
    then show ?thesis using assms(2) by blast
  qed
qed

lemma main_gated:
  assumes "main g dev argv = (code, r)"
  shows "gated dev code r p ok"
proof -
  from main_shape [OF assms]
  consider (args) d where "parse_args argv = (d, None)" "code = 1" "r = run0\<lparr>stderr := d\<rparr>"
    | (run) d sz path where "outcome dev d sz path code r"
    by blast
  then show ?thesis
  proof cases
    case args
    then show ?thesis by (intro gated_early) (simp_all add: run0_def)
  next
    case run
    have nil: "\<forall>c\<in>set []. is_fwrite c"
      "\<forall>c\<in>set []. \<not> is_fread c \<and> (\<forall>q m b. c \<noteq> Fopen q m b)"
      "\<forall>c\<in>set []. is_fread c"
      by simp_all
    from run show ?thesis
      unfolding outcome_def
    proof (elim disjE exE conjE, goal_cases)
      case 1
      show ?case
        using 1(1) early_calls [OF nil(1,2), of path False] by (intro gated_early) (simp_all add: 1(3))
    next
      case (2 ws ps)
      show ?case
        using 2(2) early_calls [OF 2(1) nil(2), of path True] by (intro gated_early) (simp_all add: 2(3))
    next
      case (3 ws ps bs x)
      have "\<forall>c\<in>set bs. \<not> is_fread c \<and> (\<forall>q m b. c \<noteq> Fopen q m b)"
        using barrier_failures_diag [OF 3(4)] by blast
      from early_calls [OF 3(1) this, of path True] 3(2)
      show ?case by (intro gated_early) (simp_all add: 3(5))
    next
      case (4 ws ps)
      show ?case by (rule gated_reopen [OF 4(1) nil(3) 4(3,4)])
    next
      case (5 ws ps rs qs)
      show ?case by (rule gated_reopen [OF 5(1,2,4,5)])
    next
      case (6 ws ps rs qs e)
      show ?case by (rule gated_reopen [OF 6(1,2,4,5)])
    qed
  qed
qed

text \<open>
  C6. Durability gating. In every run, a reopening of the destination for reading is
  directly preceded by \<^verbatim>\<open>fflush\<close>, \<^verbatim>\<open>fileno\<close>, \<^verbatim>\<open>fsync\<close> and \<^verbatim>\<open>fclose\<close>,
  in this order and all successful, with only the opening for writing and the writes
  before them and only reads after it. When the flush, the sync or the close fails, the
  program returns 1 and the destination is neither reopened nor read. This holds
  both for a device on which one of the three would fail and for a run in which one of
  them did.
\<close>
theorem durability_gating:
  assumes "main g dev argv = (code, r)"
  shows "(Fopen p Rb ok \<in> set (calls r) \<longrightarrow>
           (\<exists>ws rs. calls r = Fopen p Wb True # ws
                 @ [Fflush True, Fileno True, Fsync True, Fclose True, Fopen p Rb ok] @ rs
               \<and> (\<forall>c\<in>set ws. is_fwrite c) \<and> (\<forall>c\<in>set rs. is_fread c)))
    \<and> (\<not> (fflush_ok dev \<and> fsync_ok dev \<and> fclose_ok dev) \<longrightarrow>
           code = 1 \<and> (\<forall>q b. Fopen q Rb b \<notin> set (calls r)) \<and> (\<forall>c\<in>set (calls r). \<not> is_fread c))
    \<and> (Fflush False \<in> set (calls r) \<or> Fsync False \<in> set (calls r) \<or> Fclose False \<in> set (calls r) \<longrightarrow>
           code = 1 \<and> (\<forall>q b. Fopen q Rb b \<notin> set (calls r)) \<and> (\<forall>c\<in>set (calls r). \<not> is_fread c))"
  using main_gated [OF assms, of p ok] unfolding gated_def .

text \<open>
  The statement for a run of size 0 on the sound device, which reopens the file, and
  for one on which \<^verbatim>\<open>fsync\<close> fails.
\<close>
theorem durability_gating_witness:
  "(\<exists>ws rs. calls (snd (main lcg sound_device [''wrt'', ''0'', ''f''])) = Fopen ''f'' Wb True # ws
        @ [Fflush True, Fileno True, Fsync True, Fclose True, Fopen ''f'' Rb True] @ rs
      \<and> (\<forall>c\<in>set ws. is_fwrite c) \<and> (\<forall>c\<in>set rs. is_fread c))
   \<and> fst (main lcg failing_sync_device [''wrt'', ''0'', ''f'']) = 1
   \<and> (\<forall>q b. Fopen q Rb b \<notin> set (calls (snd (main lcg failing_sync_device [''wrt'', ''0'', ''f'']))))"
proof -
  have p1: "main lcg sound_device [''wrt'', ''0'', ''f'']
      = (fst (main lcg sound_device [''wrt'', ''0'', ''f'']),
         snd (main lcg sound_device [''wrt'', ''0'', ''f'']))"
    by simp
  have p2: "main lcg failing_sync_device [''wrt'', ''0'', ''f'']
      = (fst (main lcg failing_sync_device [''wrt'', ''0'', ''f'']),
         snd (main lcg failing_sync_device [''wrt'', ''0'', ''f'']))"
    by simp
  have h1: "Fopen ''f'' Rb True \<in> set (calls (snd (main lcg sound_device [''wrt'', ''0'', ''f''])))"
    using main_zero [OF zero_args sound_device_succeeds(1), of lcg] by simp
  have h2: "\<not> (fflush_ok failing_sync_device \<and> fsync_ok failing_sync_device
      \<and> fclose_ok failing_sync_device)"
    by (simp add: failing_sync_device_def sound_device_def)
  have h3: "Fsync False \<in> set (calls (snd (main lcg failing_sync_device [''wrt'', ''0'', ''f''])))"
    by (simp add: main_zero_failing_sync)
  show ?thesis
    using durability_gating [OF p1, of "''f''" True] durability_gating [OF p2, of "''f''" True]
      h1 h2 h3
    by blast
qed

section \<open>Runs of size zero, and a seed that does not parse\<close>

text \<open>
  C2, as the program behaves. With size 0, and every call succeeding, the program
  returns 0 without a single write or read, and reports 0 bytes written, 0 bytes read
  and 0 mismatches. It prints no progress line at all, since neither loop body runs,
  and the percentage on the last line is the NaN of the division \<open>0 / 0\<close> of line
  171, which is not guarded: it is not 100.
\<close>
theorem zero_size_run:
  assumes "parse_args argv = (d, Some (seed, 0, path))" and "all_succeed dev"
  shows "main g dev argv =
     (0, \<lparr>calls = [Fopen path Wb True, Fflush True, Fileno True, Fsync True, Fclose True,
                   Fopen path Rb True],
          stdout = [Wrote 0, Read_total 0, Found 0 NaN], stderr = d, disk = []\<rparr>)
    \<and> Found 0 (Finite 100) \<notin> set (stdout (snd (main g dev argv)))
    \<and> (\<forall>p. Writing p \<notin> set (stdout (snd (main g dev argv)))
           \<and> Reading p \<notin> set (stdout (snd (main g dev argv))))"
proof -
  have "main g dev argv =
     (0, \<lparr>calls = [Fopen path Wb True, Fflush True, Fileno True, Fsync True, Fclose True,
                   Fopen path Rb True],
          stdout = [Wrote 0, Read_total 0, Found 0 NaN], stderr = d, disk = []\<rparr>)"
    using assms by (rule main_zero)
  then show ?thesis by simp
qed

text \<open>The statement for the arguments \<^verbatim>\<open>0 f\<close> on the sound device.\<close>
theorem zero_size_run_witness:
  "main lcg sound_device [''wrt'', ''0'', ''f''] =
     (0, \<lparr>calls = [Fopen ''f'' Wb True, Fflush True, Fileno True, Fsync True, Fclose True,
                   Fopen ''f'' Rb True],
          stdout = [Wrote 0, Read_total 0, Found 0 NaN], stderr = [], disk = []\<rparr>)
    \<and> Found 0 (Finite 100) \<notin> set (stdout (snd (main lcg sound_device [''wrt'', ''0'', ''f''])))"
  using zero_size_run [OF zero_args sound_device_succeeds(1), of lcg] by blast

text \<open>
  C2 as stated fails: the output of this run of size 0 has no progress line, so none
  with 100, and the percentage on its last line is the NaN of the division \<open>0 / 0\<close>
  of line 171, not 100.
\<close>
theorem zero_size_percent_counterexample:
  "stdout (snd (main lcg sound_device [''wrt'', ''0'', ''f'']))
      = [Wrote 0, Read_total 0, Found 0 NaN]
   \<and> \<not> (Writing (Finite 100) \<in> set (stdout (snd (main lcg sound_device [''wrt'', ''0'', ''f''])))
        \<and> Reading (Finite 100) \<in> set (stdout (snd (main lcg sound_device [''wrt'', ''0'', ''f''])))
        \<and> Found 0 (Finite 100) \<in> set (stdout (snd (main lcg sound_device [''wrt'', ''0'', ''f'']))))"
  using main_zero [OF zero_args sound_device_succeeds(1), of lcg] by simp

text \<open>
  C3, at the arguments \<^verbatim>\<open>abc 1 f\<close>. The seed does not parse and the diagnostic is
  written, but the run goes on with the built-in seed: the file is opened, one byte is
  written, synced and read back, and the program returns 0.
\<close>
theorem seed_failure_not_fatal:
  "parse_args [''wrt'', ''abc'', ''1'', ''f'']
      = ([Failed_parse_seed ''abc''], Some (default_seed, 1, ''f''))
   \<and> (\<exists>r. main lcg sound_device [''wrt'', ''abc'', ''1'', ''f''] = (0, r)
         \<and> stderr r = [Failed_parse_seed ''abc'']
         \<and> calls r = [Fopen ''f'' Wb True, Fwrite 1 1, Fflush True, Fileno True, Fsync True,
                        Fclose True, Fopen ''f'' Rb True, Fread 1 1]
         \<and> length (disk r) = 1)"
proof -
  have a: "parse_args [''wrt'', ''abc'', ''1'', ''f'']
      = ([Failed_parse_seed ''abc''], Some (default_seed, 1, ''f''))"
    by (simp add: args_defs)
  have b: "unat (1 :: u64) \<le> room sound_device"
    by (simp add: sound_device_def)
  have c: "unat (1 :: u64)
      \<le> length (medium sound_device (stream (prng_next lcg) (prng_seed lcg default_seed) (unat (1 :: u64))))"
    by (simp add: sound_device_def length_stream)
  have k: "chunk_sizes (Suc 0) = [Suc 0]"
    by (simp add: chunk_sizes_def size_bytes_def)
  from main_sound [OF a sound_device_succeeds(1) b c]
  obtain r where "main lcg sound_device [''wrt'', ''abc'', ''1'', ''f''] = (0, r)"
    "calls r = Fopen ''f'' Wb True # map (\<lambda>k. Fwrite k k) (chunk_sizes (unat (1 :: u64)))
           @ barrier_calls @ Fopen ''f'' Rb True # map (\<lambda>k. Fread k k) (chunk_sizes (unat (1 :: u64)))"
    "stderr r = [Failed_parse_seed ''abc'']"
    "disk r = stream (prng_next lcg) (prng_seed lcg default_seed) (unat (1 :: u64))"
    by blast
  then have "main lcg sound_device [''wrt'', ''abc'', ''1'', ''f''] = (0, r)
         \<and> stderr r = [Failed_parse_seed ''abc'']
         \<and> calls r = [Fopen ''f'' Wb True, Fwrite 1 1, Fflush True, Fileno True, Fsync True,
                        Fclose True, Fopen ''f'' Rb True, Fread 1 1]
         \<and> length (disk r) = 1"
    by (simp add: k barrier_calls_def length_stream)
  then show ?thesis using a by blast
qed

end
